theory Spec2Isabelle
  imports Complex_Main "HOL-Library.Word"
begin

unbundle bit_operations_syntax

section \<open>Data model of the CAN message map (stm32\_can.h)\<close>

text \<open>
  The capacities are the defaults of \<^verbatim>\<open>stm32_can.h\<close>. A C array \<^verbatim>\<open>T a[n]\<close> is a list of
  length \<open>n\<close>; a pointer into it is an index. The C \<^verbatim>\<open>float\<close> of a field's gain is never
  inspected by the table operations, so the records are polymorphic in its representation.
\<close>

definition MAX_ITEMS_PER_MESSAGE :: nat where
  "MAX_ITEMS_PER_MESSAGE = 10"

definition MAX_MESSAGES :: nat where
  "MAX_MESSAGES = 10"

definition SENDBUFFER_LEN :: nat where
  "SENDBUFFER_LEN = 20"

definition CAN_ERR_INVALID_ID :: int where
  "CAN_ERR_INVALID_ID = -1"

definition CAN_ERR_INVALID_OFS :: int where
  "CAN_ERR_INVALID_OFS = -2"

definition CAN_ERR_INVALID_LEN :: int where
  "CAN_ERR_INVALID_LEN = -3"

definition CAN_ERR_MAXMESSAGES :: int where
  "CAN_ERR_MAXMESSAGES = -4"

definition CAN_ERR_MAXITEMS :: int where
  "CAN_ERR_MAXITEMS = -5"

definition CANID_UNSET :: "32 word" where
  "CANID_UNSET = 0xffffffff"

definition NUMBITS_LASTMARKER :: int where
  "NUMBITS_LASTMARKER = -1"

text \<open>
  \<^verbatim>\<open>struct CANPOS\<close>: \<open>offset\<close> is an \<^verbatim>\<open>int16_t\<close> and \<open>numBits\<close> an \<^verbatim>\<open>int8_t\<close>; both are kept as
  words and read with \<open>sint\<close>.
\<close>

record 'g CANPOS =
  mapParam :: "16 word"
  offset :: "16 word"
  gain :: 'g
  offsetBits :: "8 word"
  numBits :: "8 word"

record 'g CANIDMAP =
  canId :: "32 word"
  items :: "'g CANPOS list"

type_synonym 'g canmap = "'g CANIDMAP list"

text \<open>
  \<^verbatim>\<open>forEachCanMap\<close> visits the slots from index 0 up to the first unused identifier,
  \<^verbatim>\<open>forEachPosMap\<close> the field slots of one message up to the first one whose width is not
  positive.
\<close>

definition forEachCanMap :: "'g canmap \<Rightarrow> 'g canmap" where
  "forEachCanMap m = takeWhile (\<lambda>c. canId c < CANID_UNSET) m"

definition forEachPosMap :: "'g CANIDMAP \<Rightarrow> 'g CANPOS list" where
  "forEachPosMap m = takeWhile (\<lambda>c. 0 < sint (numBits c)) (items m)"

section \<open>Message map operations (stm32\_can.cpp)\<close>

definition ClearMap :: "'g canmap \<Rightarrow> 'g canmap" where
  "ClearMap canMap =
     map (\<lambda>m. m\<lparr>canId := CANID_UNSET,
                 items := map (\<lambda>p. p\<lparr>numBits := 0\<rparr>) (items m)\<rparr>) canMap"

primrec FindById :: "'g canmap \<Rightarrow> 32 word \<Rightarrow> nat option" where
  "FindById [] cid = None"
| "FindById (m # ms) cid =
     (if canId m = cid then Some 0 else map_option Suc (FindById ms cid))"

text \<open>
  The free-slot scan of \<open>Add\<close>, \<^verbatim>\<open>for (; freeItem->numBits > 0; freeItem++);\<close>, has no bound.
  \<open>None\<close> is the scan leaving the \<open>items\<close> array: the read of \<^verbatim>\<open>items[MAX_ITEMS_PER_MESSAGE]\<close>
  is outside the object and has no defined result.
\<close>

primrec freeItem_scan :: "'g CANPOS list \<Rightarrow> nat option" where
  "freeItem_scan [] = None"
| "freeItem_scan (p # ps) =
     (if 0 < sint (numBits p) then map_option Suc (freeItem_scan ps) else Some 0)"

text \<open>
  An \<open>Add\<close> either returns its \<^verbatim>\<open>int\<close> result, with the table as it left it, or runs past the
  field array (\<open>Overrun\<close>).
\<close>

datatype 'g add_outcome = Returned int "'g canmap" | Overrun

definition Add_item ::
  "'g canmap \<Rightarrow> nat \<Rightarrow> int \<Rightarrow> int \<Rightarrow> int \<Rightarrow> 'g \<Rightarrow> 16 word \<Rightarrow> 'g add_outcome" where
  "Add_item canMap e param offsetBits' length' gain' offset' =
     (case freeItem_scan (items (canMap ! e)) of
        None \<Rightarrow> Overrun
      | Some k \<Rightarrow>
          if sint (numBits (items (canMap ! e) ! k)) = NUMBITS_LASTMARKER
          then Returned CAN_ERR_MAXITEMS canMap
          else
            let freeItem = (items (canMap ! e) ! k)
                  \<lparr>mapParam := word_of_int param, offset := offset', gain := gain',
                   offsetBits := word_of_int offsetBits', numBits := word_of_int length'\<rparr>;
                canMap' = canMap[e := (canMap ! e)\<lparr>items := (items (canMap ! e))[k := freeItem]\<rparr>]
            in Returned (int (length (forEachCanMap canMap'))) canMap')"

definition Add ::
  "'g canmap \<Rightarrow> int \<Rightarrow> int \<Rightarrow> int \<Rightarrow> int \<Rightarrow> 'g \<Rightarrow> 16 word \<Rightarrow> 'g add_outcome" where
  "Add canMap param canId' offsetBits' length' gain' offset' =
     (if canId' > 0x1fffffff then Returned CAN_ERR_INVALID_ID canMap
      else if sint offset' > 63 then Returned CAN_ERR_INVALID_OFS canMap
      else if length' > 32 then Returned CAN_ERR_INVALID_LEN canMap
      else
        case FindById canMap (word_of_int canId') of
          Some e \<Rightarrow> Add_item canMap e param offsetBits' length' gain' offset'
        | None \<Rightarrow>
            (case FindById canMap CANID_UNSET of
               None \<Rightarrow> Returned CAN_ERR_MAXMESSAGES canMap
             | Some e \<Rightarrow>
                 Add_item (canMap[e := (canMap ! e)\<lparr>canId := word_of_int canId'\<rparr>])
                   e param offsetBits' length' gain' offset'))"

text \<open>
  \<open>CopyIdMapExcept\<close>: the inner loop over the active fields of one source message
  (\<open>CopyPos\<close>, with the destination's field array, \<open>j\<close>, \<open>removed\<close> and \<open>discardId\<close>), and the
  outer loop over the active source messages (\<open>CopyMsgs\<close>, with the destination, \<open>i\<close> and
  \<open>removed\<close>). The parameter is an enumerator, compared as an \<^verbatim>\<open>int\<close> with the promoted
  \<^verbatim>\<open>uint16_t\<close> of the slot.
\<close>

primrec CopyPos ::
  "int \<Rightarrow> 'g CANPOS list \<Rightarrow> 'g CANPOS list \<Rightarrow> nat \<Rightarrow> int \<Rightarrow> bool
     \<Rightarrow> 'g CANPOS list \<times> int \<times> bool" where
  "CopyPos param [] ditems j removed discardId = (ditems, removed, discardId)"
| "CopyPos param (curPos # rest) ditems j removed discardId =
     (if uint (mapParam curPos) \<noteq> param
      then CopyPos param rest (ditems[j := curPos]) (Suc j) removed False
      else CopyPos param rest ditems j (removed + 1) discardId)"

primrec CopyMsgs ::
  "int \<Rightarrow> 'g canmap \<Rightarrow> 'g canmap \<Rightarrow> nat \<Rightarrow> int \<Rightarrow> 'g canmap \<times> int" where
  "CopyMsgs param [] dest i removed = (dest, removed)"
| "CopyMsgs param (curMap # rest) dest i removed =
     (case CopyPos param (forEachPosMap curMap) (items (dest ! i)) 0 removed True of
        (ditems, removed', discardId) \<Rightarrow>
          if \<not> discardId
          then CopyMsgs param rest
                 (dest[i := (dest ! i)\<lparr>canId := canId curMap, items := ditems\<rparr>]) (Suc i) removed'
          else CopyMsgs param rest (dest[i := (dest ! i)\<lparr>items := ditems\<rparr>]) i removed')"

definition CopyIdMapExcept :: "'g canmap \<Rightarrow> 'g canmap \<Rightarrow> int \<Rightarrow> 'g canmap \<times> int" where
  "CopyIdMapExcept source dest param = CopyMsgs param (forEachCanMap source) dest 0 0"

text \<open>
  \<open>RemoveFromMap\<close> builds the copy in a local array that it does not initialise beyond
  \<open>ClearMap\<close>; \<open>stack\<close> is what that memory held before.
\<close>

definition RemoveFromMap :: "'g canmap \<Rightarrow> 'g canmap \<Rightarrow> int \<Rightarrow> 'g canmap \<times> int" where
  "RemoveFromMap stack canMap param =
     (let copyMap = ClearMap stack;
          (copyMap', removed) = CopyIdMapExcept canMap copyMap param;
          canMap' = ClearMap canMap;
          (canMap'', ignored) = CopyIdMapExcept copyMap' canMap' param
      in (canMap'', removed))"

text \<open>
  \<open>FindMap\<close> scans the send map, then the receive map, in slot order, and reports the first
  field bound to the parameter: identifier, bit offset, width and gain as the \<^verbatim>\<open>int\<close>s and the
  \<^verbatim>\<open>float\<close> of its reference parameters, with \<open>rx\<close>. \<open>None\<close> is the result \<^verbatim>\<open>false\<close>.
\<close>

primrec FindPos :: "int \<Rightarrow> 'g CANPOS list \<Rightarrow> 'g CANPOS option" where
  "FindPos param [] = None"
| "FindPos param (curPos # rest) =
     (if uint (mapParam curPos) = param then Some curPos else FindPos param rest)"

primrec FindInMsgs :: "int \<Rightarrow> 'g canmap \<Rightarrow> (32 word \<times> 'g CANPOS) option" where
  "FindInMsgs param [] = None"
| "FindInMsgs param (curMap # rest) =
     (case FindPos param (forEachPosMap curMap) of
        Some curPos \<Rightarrow> Some (canId curMap, curPos)
      | None \<Rightarrow> FindInMsgs param rest)"

definition FindMap ::
  "'g canmap \<Rightarrow> 'g canmap \<Rightarrow> int \<Rightarrow> (int \<times> int \<times> int \<times> 'g \<times> bool) option" where
  "FindMap sendMap recvMap param =
     (case FindInMsgs param (forEachCanMap sendMap) of
        Some (cid, curPos) \<Rightarrow>
          Some (sint cid, uint (offsetBits curPos), sint (numBits curPos), gain curPos, False)
      | None \<Rightarrow>
          (case FindInMsgs param (forEachCanMap recvMap) of
             Some (cid, curPos) \<Rightarrow>
               Some (sint cid, uint (offsetBits curPos), sint (numBits curPos), gain curPos, True)
           | None \<Rightarrow> None))"

text \<open>
  \<open>Remove\<close> on the two tables. Each \<open>RemoveFromMap\<close> call has a stack frame of its own.
\<close>

definition Remove ::
  "'g canmap \<Rightarrow> 'g canmap \<Rightarrow> 'g canmap \<Rightarrow> 'g canmap \<Rightarrow> int
     \<Rightarrow> ('g canmap \<times> 'g canmap) \<times> int" where
  "Remove stack1 stack2 sendMap recvMap param =
     (let (sendMap', removed) = RemoveFromMap stack1 sendMap param;
          (recvMap', removed2) = RemoveFromMap stack2 recvMap param
      in ((sendMap', recvMap'), removed + removed2))"

text \<open>\<open>Clear\<close> on the two tables (its \<open>ConfigureFilters\<close> call only programs the filter banks).\<close>

definition Clear :: "'g canmap \<Rightarrow> 'g canmap \<Rightarrow> 'g canmap \<times> 'g canmap" where
  "Clear sendMap recvMap = (ClearMap sendMap, ClearMap recvMap)"

section \<open>The invariant of a message table\<close>

text \<open>
  \<open>packed P xs\<close>: the elements satisfying \<open>P\<close> are the leading ones, with no gap. A table is
  well shaped when it has the arrays' sizes, and satisfies the invariant when no used
  identifier occurs twice, the used message slots are packed and, in every message, the
  active field slots are packed.
\<close>

definition packed :: "('a \<Rightarrow> bool) \<Rightarrow> 'a list \<Rightarrow> bool" where
  "packed P xs = list_all (\<lambda>x. \<not> P x) (dropWhile P xs)"

definition map_shape :: "'g canmap \<Rightarrow> bool" where
  "map_shape t =
     (length t = MAX_MESSAGES \<and> list_all (\<lambda>m. length (items m) = MAX_ITEMS_PER_MESSAGE) t)"

definition active_msg :: "'g CANIDMAP \<Rightarrow> bool" where
  "active_msg m = (canId m \<noteq> CANID_UNSET)"

definition active_pos :: "'g CANPOS \<Rightarrow> bool" where
  "active_pos p = (0 < sint (numBits p))"

definition map_inv :: "'g canmap \<Rightarrow> bool" where
  "map_inv t =
     (distinct (filter (\<lambda>c. c \<noteq> CANID_UNSET) (map canId t)) \<and>
      packed active_msg t \<and>
      list_all (\<lambda>m. packed active_pos (items m)) t)"

text \<open>The number of used message slots, and the field that \<open>Add\<close> writes.\<close>

definition active_count :: "'g canmap \<Rightarrow> nat" where
  "active_count t = length (filter active_msg t)"

definition new_field :: "int \<Rightarrow> int \<Rightarrow> int \<Rightarrow> 'g \<Rightarrow> 16 word \<Rightarrow> 'g CANPOS" where
  "new_field param offsetBits' length' gain' offset' =
     \<lparr>mapParam = word_of_int param, offset = offset', gain = gain',
      offsetBits = word_of_int offsetBits', numBits = word_of_int length'\<rparr>"

section \<open>What a rebuild of a table amounts to\<close>

text \<open>
  The following definitions are not in the source. They describe the table that
  \<open>RemoveFromMap\<close> leaves: of every active message the active fields not bound to the parameter
  (\<open>kept_fields\<close>), the messages left with at least one field (\<open>kept_msgs\<close>), written over the
  leading slots of a table (\<open>put_msgs\<close>, \<open>put_fields\<close>), and the number of active fields
  bound to the parameter (\<open>bound_fields\<close>).
\<close>

definition kept_fields :: "int \<Rightarrow> 'g CANIDMAP \<Rightarrow> 'g CANPOS list" where
  "kept_fields param m = filter (\<lambda>p. uint (mapParam p) \<noteq> param) (forEachPosMap m)"

definition kept_msgs :: "int \<Rightarrow> 'g canmap \<Rightarrow> (32 word \<times> 'g CANPOS list) list" where
  "kept_msgs param ms =
     filter (\<lambda>(c, ps). ps \<noteq> []) (map (\<lambda>m. (canId m, kept_fields param m)) ms)"

definition put_fields :: "'g CANPOS list \<Rightarrow> 'g CANPOS list \<Rightarrow> 'g CANPOS list" where
  "put_fields ps ds = ps @ drop (length ps) ds"

fun put_msgs :: "(32 word \<times> 'g CANPOS list) list \<Rightarrow> 'g canmap \<Rightarrow> 'g canmap" where
  "put_msgs ((c, ps) # ks) (d # ds) = \<lparr>canId = c, items = put_fields ps (items d)\<rparr> # put_msgs ks ds"
| "put_msgs [] ds = ds"
| "put_msgs ks [] = []"

definition bound_fields :: "int \<Rightarrow> 'g canmap \<Rightarrow> nat" where
  "bound_fields param t =
     length (filter (\<lambda>p. uint (mapParam p) = param) (concat (map forEachPosMap (forEachCanMap t))))"

text \<open>
  A table in the form a rebuild leaves: used slots packed, every used slot with at least one
  active field, and width 0 in every field slot that is not active.
\<close>

definition msg_canonical :: "'g CANIDMAP \<Rightarrow> bool" where
  "msg_canonical m =
     ((active_msg m \<longrightarrow> forEachPosMap m \<noteq> []) \<and>
      (\<not> active_msg m \<longrightarrow> forEachPosMap m = []) \<and>
      list_all (\<lambda>p. numBits p = 0) (dropWhile active_pos (items m)))"

definition map_canonical :: "'g canmap \<Rightarrow> bool" where
  "map_canonical t = (packed active_msg t \<and> list_all msg_canonical t)"

text \<open>What holds of the messages a rebuild keeps, for field arrays of \<open>n\<close> slots.\<close>

definition kept_ok :: "int \<Rightarrow> nat \<Rightarrow> (32 word \<times> 'g CANPOS list) list \<Rightarrow> bool" where
  "kept_ok param n K = (\<forall>(c, ps)\<in>set K. c \<noteq> CANID_UNSET \<and> ps \<noteq> [] \<and> length ps \<le> n \<and>
       (\<forall>p\<in>set ps. active_pos p \<and> uint (mapParam p) \<noteq> param))"

section \<open>Transmit queue (Send, HandleTx)\<close>

text \<open>
  The CAN peripheral as far as \<open>Send\<close> and \<open>HandleTx\<close> depend on it. \<^verbatim>\<open>can_transmit\<close> (libopencm3)
  returns a negative number when no transmit mailbox is free. Whether a mailbox is free is
  the hardware's business: \<open>accepts\<close> lists the answers of the calls to come, \<open>True\<close> for a
  frame taken, and a call after the last listed answer is rejected. \<open>wire\<close> records the frames
  taken, oldest first, and \<open>TMEIE\<close> is the transmit-mailbox-empty interrupt enable bit.
\<close>

record can_frame =
  frame_id :: "32 word"
  frame_ext :: bool
  frame_rtr :: bool
  frame_len :: "8 word"
  frame_data :: "32 word \<times> 32 word"

record can_hw =
  accepts :: "bool list"
  wire :: "can_frame list"
  TMEIE :: bool

definition can_transmit :: "can_frame \<Rightarrow> can_hw \<Rightarrow> bool \<times> can_hw" where
  "can_transmit f h =
     (case accepts h of
        [] \<Rightarrow> (False, h)
      | a # rest \<Rightarrow> (a, h\<lparr>accepts := rest, wire := (if a then wire h @ [f] else wire h)\<rparr>))"

text \<open>\<^verbatim>\<open>struct SENDBUFFER\<close>; its \<^verbatim>\<open>len\<close> is a \<^verbatim>\<open>uint32_t\<close>.\<close>

record SENDBUFFER =
  buf_id :: "32 word"
  buf_len :: "32 word"
  buf_data :: "32 word \<times> 32 word"

text \<open>
  The queue of a \<open>Can\<close> object: the array \<open>sendBuffer\<close> of \<open>SENDBUFFER_LEN\<close> entries and the
  count \<open>sendCnt\<close>, which the code keeps between 0 and \<open>SENDBUFFER_LEN\<close>.
\<close>

record can_queue =
  sendBuffer :: "SENDBUFFER list"
  sendCnt :: nat
  canDev :: can_hw

definition Send :: "32 word \<Rightarrow> 32 word \<times> 32 word \<Rightarrow> 8 word \<Rightarrow> can_queue \<Rightarrow> can_queue" where
  "Send canId' data len c =
     (let h0 = (canDev c)\<lparr>TMEIE := False\<rparr>;
          (taken, h1) = can_transmit
             \<lparr>frame_id = canId', frame_ext = (0x7FF < canId'), frame_rtr = False,
              frame_len = len, frame_data = data\<rparr> h0;
          c1 = (if \<not> taken \<and> sendCnt c < SENDBUFFER_LEN
                then c\<lparr>sendBuffer := (sendBuffer c)
                         [sendCnt c := \<lparr>buf_id = canId', buf_len = ucast len, buf_data = data\<rparr>],
                       sendCnt := sendCnt c + 1\<rparr>
                else c)
      in c1\<lparr>canDev := (if 0 < sendCnt c1 then h1\<lparr>TMEIE := True\<rparr> else h1)\<rparr>)"

text \<open>
  The frame that \<open>HandleTx\<close> offers for a queue entry, and the loop of \<open>HandleTx\<close> on the
  count: the top entry \<open>b[sendCnt - 1]\<close> is offered to the hardware, and popped when it is
  taken.
\<close>

definition buffer_frame :: "SENDBUFFER \<Rightarrow> can_frame" where
  "buffer_frame b =
     \<lparr>frame_id = buf_id b, frame_ext = (0x7FF < buf_id b), frame_rtr = False,
      frame_len = ucast (buf_len b), frame_data = buf_data b\<rparr>"

fun HandleTx_loop :: "SENDBUFFER list \<Rightarrow> nat \<Rightarrow> can_hw \<Rightarrow> nat \<times> can_hw" where
  "HandleTx_loop b 0 h = (0, h)"
| "HandleTx_loop b (Suc n) h =
     (case can_transmit (buffer_frame (b ! n)) h of
        (True, h') \<Rightarrow> HandleTx_loop b n h'
      | (False, h') \<Rightarrow> (Suc n, h'))"

definition HandleTx :: "can_queue \<Rightarrow> can_queue" where
  "HandleTx c =
     (let (n, h) = HandleTx_loop (sendBuffer c) (sendCnt c) (canDev c)
      in c\<lparr>sendCnt := n, canDev := (if n = 0 then h\<lparr>TMEIE := False\<rparr> else h)\<rparr>)"

text \<open>
  The pending frames of a queue, bottom of the stack first, and the bounds the code keeps.
\<close>

definition queued :: "can_queue \<Rightarrow> can_frame list" where
  "queued c = map buffer_frame (take (sendCnt c) (sendBuffer c))"

definition queue_ok :: "can_queue \<Rightarrow> bool" where
  "queue_ok c = (length (sendBuffer c) = SENDBUFFER_LEN \<and> sendCnt c \<le> SENDBUFFER_LEN)"

text \<open>
  The number of frames \<open>HandleTx\<close> gets rid of: the leading accepted attempts among at most
  \<open>n\<close> attempts.
\<close>

definition accepted_run :: "nat \<Rightarrow> bool list \<Rightarrow> nat" where
  "accepted_run n as = length (takeWhile (\<lambda>a. a) (take n as))"

section \<open>Persistence (Save, LoadFromFlash)\<close>

text \<open>
  A table in memory is a sequence of 32-bit words, and \<open>Save\<close> and \<open>LoadFromFlash\<close> move these
  words. On the target (little-endian ARM, \<^verbatim>\<open>float\<close> aligned to four bytes) a \<^verbatim>\<open>CANPOS\<close> takes
  three words: \<^verbatim>\<open>mapParam\<close> and \<^verbatim>\<open>offset\<close> share the first, the bits of \<^verbatim>\<open>gain\<close> are the second,
  and the third holds \<^verbatim>\<open>offsetBits\<close>, \<^verbatim>\<open>numBits\<close> and two padding bytes; a \<^verbatim>\<open>CANIDMAP\<close> is
  its identifier followed by its fields. The gain is kept as the bit pattern of the
  \<^verbatim>\<open>float\<close>. The padding bytes belong to no member: \<open>pad i j\<close> is what they hold in field \<open>j\<close>
  of message \<open>i\<close>.
\<close>

definition CANPOS_words :: "16 word \<Rightarrow> (32 word) CANPOS \<Rightarrow> 32 word list" where
  "CANPOS_words padding p =
     [word_cat (offset p) (mapParam p),
      gain p,
      word_cat padding (word_cat (numBits p) (offsetBits p) :: 16 word)]"

primrec items_words :: "(nat \<Rightarrow> 16 word) \<Rightarrow> nat \<Rightarrow> (32 word) CANPOS list \<Rightarrow> 32 word list" where
  "items_words pad j [] = []"
| "items_words pad j (p # ps) = CANPOS_words (pad j) p @ items_words pad (Suc j) ps"

primrec map_words ::
  "(nat \<Rightarrow> nat \<Rightarrow> 16 word) \<Rightarrow> nat \<Rightarrow> (32 word) canmap \<Rightarrow> 32 word list" where
  "map_words pad i [] = []"
| "map_words pad i (m # ms) =
     (canId m # items_words (pad i) 0 (items m)) @ map_words pad (Suc i) ms"

text \<open>Reading a table of \<open>n\<close> messages with \<open>k\<close> field slots each out of a sequence of words.\<close>

definition CANPOS_of_words :: "32 word \<Rightarrow> 32 word \<Rightarrow> 32 word \<Rightarrow> (32 word) CANPOS" where
  "CANPOS_of_words w0 w1 w2 =
     \<lparr>mapParam = ucast w0, offset = ucast (drop_bit 16 w0), gain = w1,
      offsetBits = ucast w2, numBits = ucast (drop_bit 8 w2)\<rparr>"

fun items_of_words :: "nat \<Rightarrow> 32 word list \<Rightarrow> (32 word) CANPOS list \<times> 32 word list" where
  "items_of_words (Suc k) (w0 # w1 # w2 # ws) =
     (case items_of_words k ws of (ps, rest) \<Rightarrow> (CANPOS_of_words w0 w1 w2 # ps, rest))"
| "items_of_words k ws = ([], ws)"

fun msgs_of_words :: "nat \<Rightarrow> nat \<Rightarrow> 32 word list \<Rightarrow> (32 word) canmap \<times> 32 word list" where
  "msgs_of_words (Suc n) k (w # ws) =
     (case items_of_words k ws of
        (ps, rest) \<Rightarrow>
          (case msgs_of_words n k rest of
             (ms, rest') \<Rightarrow> (\<lparr>canId = w, items = ps\<rparr> # ms, rest')))"
| "msgs_of_words n k ws = ([], ws)"

definition map_of_words :: "32 word list \<Rightarrow> (32 word) canmap" where
  "map_of_words ws = fst (msgs_of_words MAX_MESSAGES MAX_ITEMS_PER_MESSAGE ws)"

text \<open>\<^verbatim>\<open>SENDMAP_WORDS\<close> and \<^verbatim>\<open>RECVMAP_WORDS\<close>: the size of a table in words.\<close>

definition MAP_WORDS :: nat where
  "MAP_WORDS = MAX_MESSAGES * (1 + 3 * MAX_ITEMS_PER_MESSAGE)"

text \<open>
  The non-volatile side. \<open>flash\<close> is the configuration block of the interface, word by word
  from \<^verbatim>\<open>GetFlashAddress()\<close>; \<^verbatim>\<open>flash_program_word\<close> can only clear bits of a cell, so that a
  cell holds the word programmed when it was erased (all ones) before, which is the
  precondition that \<open>Save\<close> documents. \<open>crc_dr\<close> is the data register of the CRC unit:
  \<^verbatim>\<open>crc_reset\<close> sets it to all ones, \<^verbatim>\<open>crc_calculate\<close> feeds it a word and returns what it
  holds then. The polynomial step of the unit is the parameter \<open>step\<close>.
\<close>

record nv_hw =
  flash :: "32 word list"
  crc_dr :: "32 word"

definition flash_program_word :: "nat \<Rightarrow> 32 word \<Rightarrow> nv_hw \<Rightarrow> nv_hw" where
  "flash_program_word a w h = h\<lparr>flash := (flash h)[a := (flash h ! a) AND w]\<rparr>"

definition crc_reset :: "nv_hw \<Rightarrow> nv_hw" where
  "crc_reset h = h\<lparr>crc_dr := 0xFFFFFFFF\<rparr>"

definition crc_calculate :: "(32 word \<Rightarrow> 32 word \<Rightarrow> 32 word) \<Rightarrow> 32 word \<Rightarrow> nv_hw \<Rightarrow> 32 word \<times> nv_hw" where
  "crc_calculate step w h = (step (crc_dr h) w, h\<lparr>crc_dr := step (crc_dr h) w\<rparr>)"

primrec crc_calculate_block ::
  "(32 word \<Rightarrow> 32 word \<Rightarrow> 32 word) \<Rightarrow> 32 word list \<Rightarrow> nv_hw \<Rightarrow> 32 word \<times> nv_hw" where
  "crc_calculate_block step [] h = (crc_dr h, h)"
| "crc_calculate_block step (w # ws) h = crc_calculate_block step ws (snd (crc_calculate step w h))"

text \<open>
  \<open>SaveToFlash\<close>: the loop over the words, with the word index \<open>a\<close> of the cell written and
  the local \<^verbatim>\<open>crc\<close>, which starts at 0.
\<close>

primrec SaveToFlash_loop ::
  "(32 word \<Rightarrow> 32 word \<Rightarrow> 32 word) \<Rightarrow> nat \<Rightarrow> 32 word list \<Rightarrow> 32 word \<Rightarrow> nv_hw
     \<Rightarrow> 32 word \<times> nv_hw" where
  "SaveToFlash_loop step a [] crc h = (crc, h)"
| "SaveToFlash_loop step a (w # ws) crc h =
     (case crc_calculate step w h of
        (crc', h') \<Rightarrow> SaveToFlash_loop step (Suc a) ws crc' (flash_program_word a w h'))"

definition SaveToFlash ::
  "(32 word \<Rightarrow> 32 word \<Rightarrow> 32 word) \<Rightarrow> nat \<Rightarrow> 32 word list \<Rightarrow> nv_hw \<Rightarrow> 32 word \<times> nv_hw" where
  "SaveToFlash step baseAddress data h = SaveToFlash_loop step baseAddress data 0 h"

text \<open>
  \<open>ReplaceParamEnumByUid\<close> and \<open>ReplaceParamUidByEnum\<close> rewrite \<open>mapParam\<close> in the active
  fields of the active messages, in place. \<open>GetAttrib_id p\<close> is \<^verbatim>\<open>Param::GetAttrib(p)->id\<close> and
  \<open>NumFromId\<close> is \<^verbatim>\<open>Param::NumFromId\<close>, both of the parameter store.
\<close>

primrec replace_pos :: "(16 word \<Rightarrow> 16 word) \<Rightarrow> 'g CANPOS list \<Rightarrow> 'g CANPOS list" where
  "replace_pos f [] = []"
| "replace_pos f (curPos # rest) =
     (if 0 < sint (numBits curPos)
      then curPos\<lparr>mapParam := f (mapParam curPos)\<rparr> # replace_pos f rest
      else curPos # rest)"

primrec replace_msgs :: "(16 word \<Rightarrow> 16 word) \<Rightarrow> 'g canmap \<Rightarrow> 'g canmap" where
  "replace_msgs f [] = []"
| "replace_msgs f (curMap # rest) =
     (if canId curMap < CANID_UNSET
      then curMap\<lparr>items := replace_pos f (items curMap)\<rparr> # replace_msgs f rest
      else curMap # rest)"

definition ReplaceParamEnumByUid :: "(int \<Rightarrow> 32 word) \<Rightarrow> 'g canmap \<Rightarrow> 'g canmap" where
  "ReplaceParamEnumByUid GetAttrib_id canMap =
     replace_msgs (\<lambda>mp. ucast (GetAttrib_id (uint mp))) canMap"

definition ReplaceParamUidByEnum :: "(32 word \<Rightarrow> int) \<Rightarrow> 'g canmap \<Rightarrow> 'g canmap" where
  "ReplaceParamUidByEnum NumFromId canMap =
     replace_msgs (\<lambda>mp. word_of_int (NumFromId (ucast mp))) canMap"

text \<open>The two tables of a \<open>Can\<close> object, the flag \<open>isSaving\<close>, and the non-volatile side.\<close>

record can_store =
  canSendMap :: "(32 word) canmap"
  canRecvMap :: "(32 word) canmap"
  isSaving :: bool
  nv :: nv_hw

definition Save ::
  "(32 word \<Rightarrow> 32 word \<Rightarrow> 32 word) \<Rightarrow> (int \<Rightarrow> 32 word) \<Rightarrow> (32 word \<Rightarrow> int)
     \<Rightarrow> (nat \<Rightarrow> nat \<Rightarrow> 16 word) \<Rightarrow> (nat \<Rightarrow> nat \<Rightarrow> 16 word) \<Rightarrow> can_store \<Rightarrow> can_store" where
  "Save step GetAttrib_id NumFromId padS padR c =
     (let c1 = c\<lparr>isSaving := True\<rparr>;
          h0 = crc_reset (nv c1);
          sendUid = ReplaceParamEnumByUid GetAttrib_id (canSendMap c1);
          recvUid = ReplaceParamEnumByUid GetAttrib_id (canRecvMap c1);
          (crc1, h1) = SaveToFlash step 0 (map_words padS 0 sendUid) h0;
          (crc, h2) = SaveToFlash step MAP_WORDS (map_words padR 0 recvUid) h1;
          (crc3, h3) = SaveToFlash step (MAP_WORDS + MAP_WORDS) [crc] h2
      in c1\<lparr>canSendMap := ReplaceParamUidByEnum NumFromId sendUid,
            canRecvMap := ReplaceParamUidByEnum NumFromId recvUid,
            isSaving := False,
            nv := h3\<rparr>)"

text \<open>\<open>LoadFromFlash\<close> returns 1 when it adopts the stored tables and 0 when it rejects them.\<close>

definition LoadFromFlash ::
  "(32 word \<Rightarrow> 32 word \<Rightarrow> 32 word) \<Rightarrow> (32 word \<Rightarrow> int) \<Rightarrow> can_store \<Rightarrow> int \<times> can_store" where
  "LoadFromFlash step NumFromId c =
     (let storedCrc = flash (nv c) ! (MAP_WORDS + MAP_WORDS);
          (crc, h) = crc_calculate_block step (take (MAP_WORDS + MAP_WORDS) (flash (nv c)))
                       (crc_reset (nv c))
      in if storedCrc = crc
         then (1, c\<lparr>canSendMap :=
                       ReplaceParamUidByEnum NumFromId
                         (map_of_words (take MAP_WORDS (flash (nv c)))),
                     canRecvMap :=
                       ReplaceParamUidByEnum NumFromId
                         (map_of_words (take MAP_WORDS (drop MAP_WORDS (flash (nv c))))),
                     nv := h\<rparr>)
         else (0, c\<lparr>nv := h\<rparr>))"

text \<open>
  The constructor of \<open>Can\<close> clears both tables and then loads: this is the load at start-up.
\<close>

definition Load ::
  "(32 word \<Rightarrow> 32 word \<Rightarrow> 32 word) \<Rightarrow> (32 word \<Rightarrow> int) \<Rightarrow> can_store \<Rightarrow> int \<times> can_store" where
  "Load step NumFromId c =
     LoadFromFlash step NumFromId
       (c\<lparr>canSendMap := ClearMap (canSendMap c), canRecvMap := ClearMap (canRecvMap c)\<rparr>)"

section \<open>Remote protocol (ProcessSDO)\<close>

definition SDO_WRITE :: "8 word" where
  "SDO_WRITE = 0x40"

definition SDO_READ :: "8 word" where
  "SDO_READ = 0x22"

definition SDO_ABORT :: "8 word" where
  "SDO_ABORT = 0x80"

definition SDO_WRITE_REPLY :: "8 word" where
  "SDO_WRITE_REPLY = 0x23"

definition SDO_READ_REPLY :: "8 word" where
  "SDO_READ_REPLY = 0x43"

definition SDO_ERR_INVIDX :: "32 word" where
  "SDO_ERR_INVIDX = 0x06020000"

definition SDO_ERR_RANGE :: "32 word" where
  "SDO_ERR_RANGE = 0x06090030"

text \<open>
  \<^verbatim>\<open>struct CAN_SDO\<close> is packed and laid over the two payload words: the command is the low
  byte of the first word, the index its middle two bytes, the sub-index its high byte, and
  the data is the second word.
\<close>

record CAN_SDO =
  cmd :: "8 word"
  index :: "16 word"
  subIndex :: "8 word"
  sdo_data :: "32 word"

definition sdo_of_words :: "32 word \<times> 32 word \<Rightarrow> CAN_SDO" where
  "sdo_of_words d =
     \<lparr>cmd = ucast (fst d), index = ucast (drop_bit 8 (fst d)),
      subIndex = ucast (drop_bit 24 (fst d)), sdo_data = snd d\<rparr>"

definition words_of_sdo :: "CAN_SDO \<Rightarrow> 32 word \<times> 32 word" where
  "words_of_sdo s =
     (word_cat (subIndex s) (word_cat (index s) (cmd s) :: 24 word), sdo_data s)"

text \<open>
  The parameter store is not part of these sources; what \<open>ProcessSDO\<close> uses of it is taken as
  given: the number of parameters \<^verbatim>\<open>Param::PARAM_LAST\<close>, \<^verbatim>\<open>Param::Set\<close> with its result (0 for
  success) and the store it leaves, \<^verbatim>\<open>Param::Get\<close> and \<^verbatim>\<open>Param::NumFromId\<close>.
\<close>

record 's Param_store =
  PARAM_LAST :: int
  Param_Set :: "int \<Rightarrow> 32 word \<Rightarrow> 's \<Rightarrow> int \<times> 's"
  Param_Get :: "int \<Rightarrow> 's \<Rightarrow> 32 word"
  Param_NumFromId :: "32 word \<Rightarrow> int"

text \<open>
  The members of a \<open>Can\<close> object that \<open>ProcessSDO\<close> reads or writes. \<open>AddSend\<close> and \<open>AddRecv\<close> are
  the five-argument overloads, which pass the translation 0; \<open>AddRecv\<close> reprograms the
  filter banks afterwards, which leaves these members alone. \<open>None\<close> is an \<open>Add\<close> that runs
  past a field array.
\<close>

record 'g can_node =
  node_sendMap :: "'g canmap"
  node_recvMap :: "'g canmap"
  txq :: can_queue
  nodeId :: "8 word"

definition AddSend ::
  "int \<Rightarrow> int \<Rightarrow> int \<Rightarrow> int \<Rightarrow> 'g \<Rightarrow> 'g can_node \<Rightarrow> (int \<times> 'g can_node) option" where
  "AddSend param canId' offsetBits' length' gain' c =
     (case Add (node_sendMap c) param canId' offsetBits' length' gain' 0 of
        Returned res m \<Rightarrow> Some (res, c\<lparr>node_sendMap := m\<rparr>)
      | Overrun \<Rightarrow> None)"

definition AddRecv ::
  "int \<Rightarrow> int \<Rightarrow> int \<Rightarrow> int \<Rightarrow> 'g \<Rightarrow> 'g can_node \<Rightarrow> (int \<times> 'g can_node) option" where
  "AddRecv param canId' offsetBits' length' gain' c =
     (case Add (node_recvMap c) param canId' offsetBits' length' gain' 0 of
        Returned res m \<Rightarrow> Some (res, c\<lparr>node_recvMap := m\<rparr>)
      | Overrun \<Rightarrow> None)"

text \<open>
  The two ranges of requests that \<open>ProcessSDO\<close> recognises by index and sub-index: parameter
  access and mapping configuration.
\<close>

definition param_request :: "'s Param_store \<Rightarrow> CAN_SDO \<Rightarrow> bool" where
  "param_request P sdo =
     (0x2000 \<le> index sdo \<and> index sdo \<le> 0x2001 \<and> uint (subIndex sdo) < PARAM_LAST P)"

definition map_request :: "'s Param_store \<Rightarrow> CAN_SDO \<Rightarrow> bool" where
  "map_request P sdo =
     (0x3000 \<le> index sdo \<and> index sdo < 0x4800 \<and> uint (subIndex sdo) < PARAM_LAST P)"

text \<open>
  \<open>SDO_handle\<close> is \<open>ProcessSDO\<close> up to its last statement: it gives the store, the object and
  the reply as the request has become. \<open>ProcessSDO\<close> then hands the reply to \<open>Send\<close> with the
  identifier \<open>0x580 + nodeId\<close> and 8 bytes. \<open>to_float\<close> is the conversion of the \<^verbatim>\<open>s32fp\<close> gain
  to the \<^verbatim>\<open>float\<close> parameter of \<open>AddSend\<close> and \<open>AddRecv\<close>.
\<close>

definition SDO_handle ::
  "'s Param_store \<Rightarrow> (int \<Rightarrow> 'g) \<Rightarrow> CAN_SDO \<Rightarrow> 's \<Rightarrow> 'g can_node
     \<Rightarrow> (CAN_SDO \<times> 's \<times> 'g can_node) option" where
  "SDO_handle P to_float sdo st c =
     (if param_request P sdo
      then
        let paramIdx = (if index sdo = 0x2001 then Param_NumFromId P (ucast (subIndex sdo))
                        else uint (subIndex sdo))
        in if cmd sdo = SDO_WRITE
           then (case Param_Set P paramIdx (sdo_data sdo) st of
                   (res, st') \<Rightarrow>
                     if res = 0 then Some (sdo\<lparr>cmd := SDO_WRITE_REPLY\<rparr>, st', c)
                     else Some (sdo\<lparr>cmd := SDO_ABORT, sdo_data := SDO_ERR_RANGE\<rparr>, st', c))
           else if cmd sdo = SDO_READ
           then Some (sdo\<lparr>sdo_data := Param_Get P paramIdx st, cmd := SDO_READ_REPLY\<rparr>, st, c)
           else Some (sdo, st, c)
      else if map_request P sdo
      then
        if cmd sdo = SDO_WRITE
        then
          let offset' = uint (sdo_data sdo AND 0xFF);
              len = uint (drop_bit 8 (sdo_data sdo) AND 0xFF);
              gain' = to_float (uint (drop_bit 16 (sdo_data sdo)));
              added = (if index sdo AND 0x4000 = 0x4000
                       then AddRecv (uint (subIndex sdo)) (uint (index sdo AND 0x7FF)) offset' len gain' c
                       else AddSend (uint (subIndex sdo)) (uint (index sdo AND 0x7FF)) offset' len gain' c)
          in (case added of
                None \<Rightarrow> None
              | Some (result, c') \<Rightarrow>
                  if 0 \<le> result then Some (sdo\<lparr>cmd := SDO_WRITE_REPLY\<rparr>, st, c')
                  else Some (sdo\<lparr>cmd := SDO_ABORT, sdo_data := SDO_ERR_RANGE\<rparr>, st, c'))
        else Some (sdo, st, c)
      else Some (sdo\<lparr>cmd := SDO_ABORT, sdo_data := SDO_ERR_INVIDX\<rparr>, st, c))"

definition ProcessSDO ::
  "'s Param_store \<Rightarrow> (int \<Rightarrow> 'g) \<Rightarrow> 32 word \<times> 32 word \<Rightarrow> 's \<Rightarrow> 'g can_node
     \<Rightarrow> ('s \<times> 'g can_node) option" where
  "ProcessSDO P to_float data st c =
     (case SDO_handle P to_float (sdo_of_words data) st c of
        None \<Rightarrow> None
      | Some (reply, st', c') \<Rightarrow>
          Some (st', c'\<lparr>txq := Send (0x580 + ucast (nodeId c')) (words_of_sdo reply) 8 (txq c')\<rparr>))"

section \<open>Add on the memory of a table\<close>

text \<open>
  \<^verbatim>\<open>items[MAX_ITEMS_PER_MESSAGE]\<close> of a message is outside its \<^verbatim>\<open>items\<close> array, but for every
  message except the last it is inside the array of messages: with the layout above a
  \<^verbatim>\<open>CANIDMAP\<close> takes \<open>1 + 3 * MAX_ITEMS_PER_MESSAGE\<close> words and the next message starts where the
  fields of this one end. The scan \<^verbatim>\<open>for (; freeItem->numBits > 0; freeItem++);\<close> then reads,
  and the assignments after it write, the words of the next message: \<^verbatim>\<open>mapParam\<close> and
  \<^verbatim>\<open>offset\<close> of the slot are the two halves of the next identifier.

  \<open>Add_layout\<close> is \<open>Add\<close> on the words of the table. \<open>FindById\<close> and \<open>forEachCanMap\<close> stay inside
  the arrays and read the table through \<open>map_of_words\<close>; the scan and the assignments to the
  slot work on word indices, \<open>a\<close> being the index of the first word of the slot \<^verbatim>\<open>freeItem\<close>
  points to. \<open>Outside\<close> is the scan leaving the words of the table.
\<close>

definition CANIDMAP_WORDS :: nat where
  "CANIDMAP_WORDS = 1 + 3 * MAX_ITEMS_PER_MESSAGE"

definition slot_numBits :: "32 word list \<Rightarrow> nat \<Rightarrow> 8 word" where
  "slot_numBits mem a = ucast (drop_bit 8 (mem ! (a + 2)))"

function freeItem_scan_layout :: "32 word list \<Rightarrow> nat \<Rightarrow> nat option" where
  "freeItem_scan_layout mem a =
     (if length mem \<le> a + 2 then None
      else if 0 < sint (slot_numBits mem a) then freeItem_scan_layout mem (a + 3)
      else Some a)"
  by pat_completeness auto
termination
  by (relation "measure (\<lambda>(mem, a). length mem - a)") auto

declare freeItem_scan_layout.simps [simp del]

datatype layout_outcome = Stored int "32 word list" | Outside

definition Add_item_layout ::
  "32 word list \<Rightarrow> nat \<Rightarrow> int \<Rightarrow> int \<Rightarrow> int \<Rightarrow> 32 word \<Rightarrow> 16 word \<Rightarrow> layout_outcome" where
  "Add_item_layout mem e param offsetBits' length' gain' offset' =
     (case freeItem_scan_layout mem (e * CANIDMAP_WORDS + 1) of
        None \<Rightarrow> Outside
      | Some a \<Rightarrow>
          if sint (slot_numBits mem a) = NUMBITS_LASTMARKER
          then Stored CAN_ERR_MAXITEMS mem
          else
            let mem' = mem
                  [a := word_cat offset' (word_of_int param :: 16 word),
                   a + 1 := gain',
                   a + 2 := word_cat (ucast (drop_bit 16 (mem ! (a + 2))) :: 16 word)
                              (word_cat (word_of_int length' :: 8 word)
                                 (word_of_int offsetBits' :: 8 word) :: 16 word)]
            in Stored (int (length (forEachCanMap (map_of_words mem')))) mem')"

definition Add_layout ::
  "32 word list \<Rightarrow> int \<Rightarrow> int \<Rightarrow> int \<Rightarrow> int \<Rightarrow> 32 word \<Rightarrow> 16 word \<Rightarrow> layout_outcome" where
  "Add_layout mem param canId' offsetBits' length' gain' offset' =
     (if canId' > 0x1fffffff then Stored CAN_ERR_INVALID_ID mem
      else if sint offset' > 63 then Stored CAN_ERR_INVALID_OFS mem
      else if length' > 32 then Stored CAN_ERR_INVALID_LEN mem
      else
        case FindById (map_of_words mem) (word_of_int canId') of
          Some e \<Rightarrow> Add_item_layout mem e param offsetBits' length' gain' offset'
        | None \<Rightarrow>
            (case FindById (map_of_words mem) CANID_UNSET of
               None \<Rightarrow> Stored CAN_ERR_MAXMESSAGES mem
             | Some e \<Rightarrow>
                 Add_item_layout (mem[e * CANIDMAP_WORDS := word_of_int canId'])
                   e param offsetBits' length' gain' offset'))"

section \<open>Field codec (the loop bodies of SendAll and HandleRx)\<close>

text \<open>
  The mask of a field is the \<^verbatim>\<open>int\<close> expression \<^verbatim>\<open>(1 << numBits) - 1\<close>. On the 32-bit \<^verbatim>\<open>int\<close> of
  the target, \<^verbatim>\<open>1 << n\<close> has no defined value when \<open>n\<close> is negative or not below 32, and is
  the least \<^verbatim>\<open>int\<close> for \<open>n = 31\<close>; the subtraction has no defined value when it leaves the
  range of \<^verbatim>\<open>int\<close>. \<open>None\<close> is an expression without a defined value. The \<open>&\<close> with an
  unsigned operand converts the mask to \<^verbatim>\<open>uint32_t\<close>.
\<close>

definition one_shl :: "int \<Rightarrow> int option" where
  "one_shl n = (if n < 0 \<or> 32 \<le> n then None else Some (sint (push_bit (nat n) (1 :: 32 word))))"

definition int_minus_one :: "int \<Rightarrow> int option" where
  "int_minus_one v = (if - (2 ^ 31) \<le> v - 1 then Some (v - 1) else None)"

definition field_mask :: "int \<Rightarrow> 32 word option" where
  "field_mask n =
     (case one_shl n of
        None \<Rightarrow> None
      | Some v \<Rightarrow> (case int_minus_one v of None \<Rightarrow> None | Some m \<Rightarrow> Some (word_of_int m)))"

text \<open>Shifts of a \<^verbatim>\<open>uint32_t\<close> by an \<^verbatim>\<open>int\<close> count, defined for counts from 0 to 31.\<close>

definition u32_shl :: "32 word \<Rightarrow> int \<Rightarrow> 32 word option" where
  "u32_shl v n = (if n < 0 \<or> 32 \<le> n then None else Some (push_bit (nat n) v))"

definition u32_shr :: "32 word \<Rightarrow> int \<Rightarrow> 32 word option" where
  "u32_shr v n = (if n < 0 \<or> 32 \<le> n then None else Some (drop_bit (nat n) v))"

text \<open>
  A \<^verbatim>\<open>float\<close> is modelled by a rational number and the operations on it are exact. This is
  what single precision computes as long as operands and results are integers of
  magnitude below \<open>2 ^ 24\<close>, or such integers divided by a power of two; the statements on
  the codec stay in this range. The conversion of a \<^verbatim>\<open>float\<close> to an integer type truncates,
  and has no defined value when the truncated value is not in the type.
\<close>

definition float_trunc :: "rat \<Rightarrow> int" where
  "float_trunc x = (if 0 \<le> x then \<lfloor>x\<rfloor> else \<lceil>x\<rceil>)"

definition float_to_u32 :: "rat \<Rightarrow> 32 word option" where
  "float_to_u32 x =
     (if 0 \<le> float_trunc x \<and> float_trunc x < 2 ^ 32 then Some (word_of_int (float_trunc x))
      else None)"

definition float_to_s32 :: "rat \<Rightarrow> int option" where
  "float_to_s32 x =
     (if - (2 ^ 31) \<le> float_trunc x \<and> float_trunc x < 2 ^ 31 then Some (float_trunc x)
      else None)"

text \<open>
  Modelled from the spec: the fixed-point format of the parameter store. \<^verbatim>\<open>FP_FROMINT\<close> and
  \<^verbatim>\<open>Param::GetFloat\<close> are used by the codec and are not among the sources; the spec calls the
  value of a parameter fixed-point. A fixed-point value is a 32-bit integer that counts
  units of \<open>2 ^ - fd\<close>, with the number \<open>fd\<close> of fractional bits a parameter: \<open>FP_FROMINT\<close>
  shifts an integer left by \<open>fd\<close>, and \<open>fixed_to_float\<close> is the \<^verbatim>\<open>float\<close> that
  \<^verbatim>\<open>Param::GetFloat\<close> returns for a parameter whose fixed-point value is \<open>v\<close>.
\<close>

definition FP_FROMINT :: "nat \<Rightarrow> 32 word \<Rightarrow> int" where
  "FP_FROMINT fd a = sint (push_bit fd a)"

definition fixed_to_float :: "nat \<Rightarrow> int \<Rightarrow> rat" where
  "fixed_to_float fd v = of_int v / 2 ^ fd"

text \<open>
  The body of the inner loop of \<open>SendAll\<close>, for one field: \<open>fval0\<close> is what
  \<^verbatim>\<open>Param::GetFloat\<close> returned, \<open>data\<close> the two payload words so far.
\<close>

definition SendAll_field ::
  "rat \<Rightarrow> rat CANPOS \<Rightarrow> 32 word \<times> 32 word \<Rightarrow> (32 word \<times> 32 word) option" where
  "SendAll_field fval0 curPos data =
     (let fval = fval0 * gain curPos + of_int (sint (offset curPos))
      in case float_to_u32 fval of
           None \<Rightarrow> None
         | Some val0 \<Rightarrow>
             (case field_mask (sint (numBits curPos)) of
                None \<Rightarrow> None
              | Some m \<Rightarrow>
                  if 31 < uint (offsetBits curPos)
                  then (case u32_shl (val0 AND m) (uint (offsetBits curPos) - 32) of
                          None \<Rightarrow> None
                        | Some v \<Rightarrow> Some (fst data, snd data OR v))
                  else (case u32_shl (val0 AND m) (uint (offsetBits curPos)) of
                          None \<Rightarrow> None
                        | Some v \<Rightarrow> Some (fst data OR v, snd data))))"

text \<open>
  The body of the field loop of \<open>HandleRx\<close>, for one field of a received payload: the result
  is the fixed-point value handed to \<^verbatim>\<open>Param::Set\<close> or \<^verbatim>\<open>Param::SetFixed\<close>.
\<close>

definition HandleRx_field :: "nat \<Rightarrow> rat CANPOS \<Rightarrow> 32 word \<times> 32 word \<Rightarrow> int option" where
  "HandleRx_field fd curPos data =
     (case field_mask (sint (numBits curPos)) of
        None \<Rightarrow> None
      | Some m \<Rightarrow>
          (case (if 31 < uint (offsetBits curPos)
                 then u32_shr (snd data) (uint (offsetBits curPos) - 32)
                 else u32_shr (fst data) (uint (offsetBits curPos))) of
             None \<Rightarrow> None
           | Some raw \<Rightarrow>
               let val0 = FP_FROMINT fd (raw AND m);
                   val1 = val0 + sint (offset curPos)
               in if - (2 ^ 31) \<le> val1 \<and> val1 < 2 ^ 31
                  then float_to_s32 (of_int val1 * gain curPos)
                  else None))"

section \<open>Concrete tables for the closed theorems\<close>

text \<open>Memory filled with zero bytes, as the tables of a statically allocated \<open>Can\<close> object.\<close>

definition zero_CANPOS :: "(32 word) CANPOS" where
  "zero_CANPOS = \<lparr>mapParam = 0, offset = 0, gain = 0, offsetBits = 0, numBits = 0\<rparr>"

definition zero_map :: "(32 word) canmap" where
  "zero_map = replicate MAX_MESSAGES
     \<lparr>canId = 0, items = replicate MAX_ITEMS_PER_MESSAGE zero_CANPOS\<rparr>"

text \<open>A table whose first message holds \<open>MAX_ITEMS_PER_MESSAGE\<close> active fields.\<close>

definition full_message_map :: "(32 word) canmap" where
  "full_message_map = (ClearMap zero_map)
     [0 := \<lparr>canId = 0x123,
            items = replicate MAX_ITEMS_PER_MESSAGE
              \<lparr>mapParam = 1, offset = 0, gain = 0, offsetBits = 0, numBits = 8\<rparr>\<rparr>]"

text \<open>
  An empty queue in front of hardware that rejects two attempts and accepts the next three,
  and the queue after two \<open>Send\<close> calls.
\<close>

definition empty_queue :: can_queue where
  "empty_queue =
     \<lparr>sendBuffer = replicate SENDBUFFER_LEN \<lparr>buf_id = 0, buf_len = 0, buf_data = (0, 0)\<rparr>,
      sendCnt = 0,
      canDev = \<lparr>accepts = [False, False, True, True, True], wire = [], TMEIE = False\<rparr>\<rparr>"

definition two_queued :: can_queue where
  "two_queued = Send 0x102 (2, 0) 8 (Send 0x101 (1, 0) 8 empty_queue)"

text \<open>
  A table with the single message \<open>0x123\<close> holding one field, and a table whose
  \<open>MAX_MESSAGES\<close> slots are all in use, each with one field.
\<close>

definition one_message_map :: "(32 word) canmap" where
  "one_message_map = (ClearMap zero_map)
     [0 := \<lparr>canId = 0x123,
            items = (replicate MAX_ITEMS_PER_MESSAGE zero_CANPOS)[0 := new_field 1 0 8 0 0]\<rparr>]"

definition all_messages_map :: "(32 word) canmap" where
  "all_messages_map =
     map (\<lambda>i. \<lparr>canId = 0x200 + word_of_nat i,
                items = (replicate MAX_ITEMS_PER_MESSAGE zero_CANPOS)[0 := new_field 1 0 8 0 0]\<rparr>)
       [0..<MAX_MESSAGES]"

text \<open>
  A send table with the messages \<open>0x123\<close> (parameters 1 and 2) and \<open>0x124\<close> (parameter 1), and
  the table that \<open>Add\<close> leaves on a cleared table when it is given the width 0: message
  \<open>0x123\<close> is allocated and has no active field.
\<close>

definition two_message_map :: "(32 word) canmap" where
  "two_message_map = (ClearMap zero_map)
     [0 := \<lparr>canId = 0x123,
            items = (replicate MAX_ITEMS_PER_MESSAGE zero_CANPOS)
              [0 := new_field 1 0 8 0 0, 1 := new_field 2 8 8 0 0]\<rparr>,
      1 := \<lparr>canId = 0x124,
            items = (replicate MAX_ITEMS_PER_MESSAGE zero_CANPOS)[0 := new_field 1 0 16 0 0]\<rparr>]"

definition zero_width_map :: "(32 word) canmap" where
  "zero_width_map = (ClearMap zero_map)
     [0 := \<lparr>canId = 0x123,
            items = (replicate MAX_ITEMS_PER_MESSAGE zero_CANPOS)[0 := new_field 1 0 0 0 0]\<rparr>]"





text \<open>
  A parameter store of ten parameters that accepts every value, and a node with the
  identifier 1, cleared tables and an empty queue in front of hardware that takes the next
  frame.
\<close>

definition plain_store :: "unit Param_store" where
  "plain_store =
     \<lparr>PARAM_LAST = 10, Param_Set = (\<lambda>p v s. (0, s)), Param_Get = (\<lambda>p s. 0),
      Param_NumFromId = uint\<rparr>"

definition idle_node :: "(32 word) can_node" where
  "idle_node =
     \<lparr>node_sendMap = ClearMap zero_map, node_recvMap = ClearMap zero_map,
      txq = empty_queue\<lparr>canDev := \<lparr>accepts = [True], wire = [], TMEIE = False\<rparr>\<rparr>,
      nodeId = 1\<rparr>"

text \<open>
  Fields of a message whose gain is a number: an 8-bit field at bit 40 and one at bit 0 with
  gain 1, an 8-bit field at bit 0 with gain 2, and a cleared table of such fields.
\<close>

definition unit_gain_pos :: "rat CANPOS" where
  "unit_gain_pos = \<lparr>mapParam = 1, offset = 0, gain = 1, offsetBits = 40, numBits = 8\<rparr>"

definition gain2_pos :: "rat CANPOS" where
  "gain2_pos = \<lparr>mapParam = 1, offset = 0, gain = 2, offsetBits = 0, numBits = 8\<rparr>"

definition zero_rat_map :: "rat canmap" where
  "zero_rat_map = replicate MAX_MESSAGES
     \<lparr>canId = 0,
      items = replicate MAX_ITEMS_PER_MESSAGE
        \<lparr>mapParam = 0, offset = 0, gain = 0, offsetBits = 0, numBits = 0\<rparr>\<rparr>"

section \<open>Lookup and free-slot scan\<close>

lemma FindById_Some:
  "FindById t cid = Some e \<Longrightarrow>
     e < length t \<and> canId (t ! e) = cid \<and> (\<forall>i<e. canId (t ! i) \<noteq> cid)"
proof (induction t arbitrary: e)
  case Nil
  then show ?case by simp
next
  case (Cons m ms)
  show ?case
  proof (cases "canId m = cid")
    case True
    with Cons.prems show ?thesis by simp
  next
    case False
    with Cons.prems obtain e' where e': "FindById ms cid = Some e'" "e = Suc e'"
      by auto
    from Cons.IH [OF e'(1)] False e'(2) show ?thesis
      by (auto simp: nth_Cons split: nat.splits)
  qed
qed

lemma FindById_None: "FindById t cid = None \<longleftrightarrow> (\<forall>m\<in>set t. canId m \<noteq> cid)"
  by (induction t) auto

lemma freeItem_scan_Some:
  "freeItem_scan ps = Some k \<Longrightarrow>
     k < length ps \<and> \<not> 0 < sint (numBits (ps ! k)) \<and> (\<forall>i<k. 0 < sint (numBits (ps ! i)))"
proof (induction ps arbitrary: k)
  case Nil
  then show ?case by simp
next
  case (Cons p ps)
  show ?case
  proof (cases "0 < sint (numBits p)")
    case False
    with Cons.prems show ?thesis by simp
  next
    case True
    with Cons.prems obtain k' where k': "freeItem_scan ps = Some k'" "k = Suc k'"
      by auto
    from Cons.IH [OF k'(1)] True k'(2) show ?thesis
      by (auto simp: nth_Cons split: nat.splits)
  qed
qed

lemma freeItem_scan_None:
  "freeItem_scan ps = None \<longleftrightarrow> (\<forall>p\<in>set ps. 0 < sint (numBits p))"
  by (induction ps) auto

lemma Add_item_result:
  "Add_item canMap e param ob len g off = Returned r t \<Longrightarrow> r = CAN_ERR_MAXITEMS \<or> 0 \<le> r"
  by (auto simp: Add_item_def Let_def split: option.splits if_splits)

section \<open>Packed lists\<close>

lemma packed_Nil [simp]: "packed P []"
  by (simp add: packed_def)

lemma packed_Cons:
  "packed P (x # xs) = (if P x then packed P xs else (\<forall>y\<in>set (x # xs). \<not> P y))"
  by (simp add: packed_def list_all_iff)

lemma packed_none: "\<forall>y\<in>set xs. \<not> P y \<Longrightarrow> packed P xs"
  by (cases xs) (auto simp: packed_def list_all_iff)

lemma packed_filter: "packed P xs \<Longrightarrow> filter P xs = takeWhile P xs"
  by (induction xs) (auto simp: packed_Cons)

text \<open>
  Writing at the first index that fails \<open>P\<close>, which is where \<open>FindById\<close> for the unused
  identifier and the free-slot scan stop, keeps a list packed.
\<close>

lemma packed_update_first:
  assumes "packed P xs" "k = length (takeWhile P xs)"
  shows "packed P (xs[k := v])"
  using assms
proof (induction xs arbitrary: k)
  case Nil
  then show ?case by simp
next
  case (Cons x xs)
  show ?case
  proof (cases "P x")
    case True
    with Cons show ?thesis by (simp add: packed_Cons)
  next
    case False
    with Cons.prems have all: "\<forall>y\<in>set xs. \<not> P y" and k: "k = 0"
      by (simp_all add: packed_Cons)
    from all have "packed P xs" by (rule packed_none)
    with all k show ?thesis by (simp add: packed_Cons)
  qed
qed

lemma takeWhile_update_first:
  assumes "packed P xs" "k = length (takeWhile P xs)" "k < length xs" "P v"
  shows "length (takeWhile P (xs[k := v])) = Suc k"
  using assms
proof (induction xs arbitrary: k)
  case Nil
  then show ?case by simp
next
  case (Cons x xs)
  show ?case
  proof (cases "P x")
    case True
    with Cons show ?thesis by (simp add: packed_Cons)
  next
    case False
    with Cons.prems have all: "\<forall>y\<in>set xs. \<not> P y" and k: "k = 0"
      by (simp_all add: packed_Cons)
    from all have "takeWhile P xs = []" by (cases xs) auto
    with k Cons.prems(4) show ?thesis by simp
  qed
qed

lemma takeWhile_update_first_not:
  assumes "k = length (takeWhile P xs)" "\<not> P v"
  shows "takeWhile P (xs[k := v]) = takeWhile P xs"
  using assms
  by (induction xs arbitrary: k) auto

lemma FindById_UNSET_first:
  "FindById t CANID_UNSET = Some e \<Longrightarrow> e = length (takeWhile active_msg t)"
proof (induction t arbitrary: e)
  case Nil
  then show ?case by simp
next
  case (Cons m ms)
  then show ?case by (auto simp: active_msg_def split: if_splits)
qed

lemma freeItem_scan_first:
  "freeItem_scan ps = Some k \<Longrightarrow> k = length (takeWhile active_pos ps)"
proof (induction ps arbitrary: k)
  case Nil
  then show ?case by simp
next
  case (Cons p ps)
  then show ?case by (auto simp: active_pos_def split: if_splits)
qed

lemma word32_less_max: "(c :: 32 word) < 0xffffffff \<longleftrightarrow> c \<noteq> 0xffffffff"
proof -
  have "(0xffffffff :: 32 word) = - 1" by simp
  then show ?thesis
    by (metis word_order.not_eq_extremum)
qed

lemma forEachCanMap_active: "forEachCanMap t = takeWhile active_msg t"
  by (simp add: forEachCanMap_def active_msg_def [abs_def] CANID_UNSET_def word32_less_max)

lemma forEachPosMap_active: "forEachPosMap m = takeWhile active_pos (items m)"
  by (simp add: forEachPosMap_def active_pos_def [abs_def])

lemma CANIDMAP_update_all:
  "(m :: 'g CANIDMAP)\<lparr>canId := c, items := is\<rparr> = \<lparr>canId = c, items = is\<rparr>"
  by (cases m) simp


section \<open>Clear and Add keep the invariant\<close>

lemma map_shape_update:
  "map_shape t \<Longrightarrow> length (items m) = MAX_ITEMS_PER_MESSAGE \<Longrightarrow> map_shape (t[e := m])"
  by (auto simp: map_shape_def list_all_iff dest: set_update_subset_insert [THEN subsetD])

lemma map_shape_nth:
  "map_shape t \<Longrightarrow> e < length t \<Longrightarrow> length (items (t ! e)) = MAX_ITEMS_PER_MESSAGE"
  by (auto simp: map_shape_def list_all_iff)

lemma list_all_update:
  "list_all Q xs \<Longrightarrow> Q v \<Longrightarrow> list_all Q (xs[e := v])"
  by (auto simp: list_all_iff dest: set_update_subset_insert [THEN subsetD])

lemma ClearMap_shape: "map_shape t \<Longrightarrow> map_shape (ClearMap t)"
  by (auto simp: map_shape_def ClearMap_def list_all_iff)

lemma ClearMap_inv: "map_inv (ClearMap t)"
proof -
  have ids: "map canId (ClearMap t) = replicate (length t) CANID_UNSET"
    by (simp add: ClearMap_def map_replicate_const [symmetric] comp_def)
  have "packed active_msg (ClearMap t)"
    by (rule packed_none) (auto simp: ClearMap_def active_msg_def)
  moreover have "list_all (\<lambda>m. packed active_pos (items m)) (ClearMap t)"
    by (auto simp: list_all_iff ClearMap_def active_pos_def intro!: packed_none)
  ultimately show ?thesis
    by (simp add: map_inv_def ids)
qed

lemma packed_map: "packed P xs = packed (\<lambda>b. b) (map P xs)"
  by (induction xs) (auto simp: packed_Cons)

lemma packed_cong_map: "map P xs = map P ys \<Longrightarrow> packed P xs = packed P ys"
  by (metis packed_map)

lemma length_takeWhile_map: "length (takeWhile P xs) = length (takeWhile (\<lambda>b. b) (map P xs))"
  by (induction xs) auto

text \<open>\<open>Add\<close> keeps the invariant and the shape whenever it returns.\<close>

lemma Add_item_inv:
  assumes "map_inv t" "e < length t" "Add_item t e param ob len g off = Returned r t'"
  shows "map_inv t'"
proof (cases "freeItem_scan (items (t ! e))")
  case None
  with assms(3) show ?thesis by (simp add: Add_item_def)
next
  case (Some k)
  show ?thesis
  proof (cases "sint (numBits (items (t ! e) ! k)) = NUMBITS_LASTMARKER")
    case True
    with Some assms show ?thesis by (simp add: Add_item_def)
  next
    case False
    define item where "item = (items (t ! e) ! k)
                  \<lparr>mapParam := word_of_int param, offset := off, gain := g,
                   offsetBits := word_of_int ob, numBits := word_of_int len\<rparr>"
    from False Some assms(3)
    have t': "t' = t[e := (t ! e)\<lparr>items := (items (t ! e))[k := item]\<rparr>]"
      by (simp add: Add_item_def Let_def item_def)
    have ids: "map canId t' = map canId t"
      using assms(2) by (simp add: t' map_update list_update_same_conv)
    have act: "map active_msg t' = map active_msg t"
      using assms(2) by (simp add: t' map_update list_update_same_conv active_msg_def)
    from assms(1,2) have pk: "packed active_pos (items (t ! e))"
      by (simp add: map_inv_def list_all_length)
    have "packed active_pos ((items (t ! e))[k := item])"
      by (rule packed_update_first [OF pk freeItem_scan_first [OF Some]])
    with assms(1) have items: "list_all (\<lambda>m. packed active_pos (items m)) t'"
      unfolding t' by (intro list_all_update) (simp_all add: map_inv_def)
    have "packed active_msg t' = packed active_msg t"
      by (rule packed_cong_map [OF act])
    with assms(1) ids items show ?thesis
      by (simp add: map_inv_def)
  qed
qed


lemma distinct_filter_update:
  assumes "distinct (filter Q xs)" "\<not> Q (xs ! e)" "v \<notin> set xs"
  shows "distinct (filter Q (xs[e := v]))"
  using assms
proof (induction xs arbitrary: e)
  case Nil
  then show ?case by simp
next
  case (Cons x xs)
  show ?case
  proof (cases e)
    case 0
    with Cons.prems show ?thesis by auto
  next
    case (Suc e')
    with Cons.prems have "distinct (filter Q (xs[e' := v]))"
      by (intro Cons.IH) (auto split: if_splits)
    moreover have "set (xs[e' := v]) \<subseteq> insert v (set xs)"
      by (rule set_update_subset_insert)
    ultimately show ?thesis
      using Cons.prems Suc by (auto split: if_splits)
  qed
qed

lemma alloc_inv:
  assumes "map_inv t" "FindById t cid = None" "FindById t CANID_UNSET = Some e"
  shows "map_inv (t[e := (t ! e)\<lparr>canId := cid\<rparr>])"
proof -
  let ?t = "t[e := (t ! e)\<lparr>canId := cid\<rparr>]"
  from FindById_Some [OF assms(3)] have e: "e < length t" "canId (t ! e) = CANID_UNSET"
    by simp_all
  have ids: "map canId ?t = (map canId t)[e := cid]"
    by (simp add: map_update)
  from assms(2) have new: "cid \<notin> set (map canId t)"
    by (auto simp: FindById_None)
  have "distinct (filter (\<lambda>c. c \<noteq> CANID_UNSET) ((map canId t)[e := cid]))"
    using assms(1) e new by (intro distinct_filter_update) (simp_all add: map_inv_def)
  moreover have "packed active_msg ?t"
    using assms(1) by (intro packed_update_first FindById_UNSET_first [OF assms(3)]) (simp add: map_inv_def)
  moreover have "list_all (\<lambda>m. packed active_pos (items m)) ?t"
    using assms(1) e by (intro list_all_update) (simp_all add: map_inv_def list_all_length)
  ultimately show ?thesis
    by (simp add: map_inv_def ids)
qed

lemma Add_inv:
  assumes "map_inv t" "Add t param canId' ob len g off = Returned r t'"
  shows "map_inv t'"
proof -
  consider (err) "t' = t"
    | (old) e where "FindById t (word_of_int canId') = Some e"
        "Add_item t e param ob len g off = Returned r t'"
    | (new) e where "FindById t (word_of_int canId') = None" "FindById t CANID_UNSET = Some e"
        "Add_item (t[e := (t ! e)\<lparr>canId := word_of_int canId'\<rparr>]) e param ob len g off
           = Returned r t'"
    using assms(2) by (auto simp: Add_def split: if_splits option.splits)
  then show ?thesis
  proof cases
    case err
    with assms(1) show ?thesis by simp
  next
    case old
    from FindById_Some [OF old(1)] have "e < length t" by simp
    then show ?thesis by (rule Add_item_inv [OF assms(1) _ old(2)])
  next
    case new
    from FindById_Some [OF new(2)] have e: "e < length t" by simp
    have "e < length (t[e := (t ! e)\<lparr>canId := word_of_int canId'\<rparr>])"
      using e by simp
    then show ?thesis
      by (rule Add_item_inv [OF alloc_inv [OF assms(1) new(1,2)] _ new(3)])
  qed
qed

lemma Add_item_shape:
  assumes "map_shape t" "e < length t" "Add_item t e param ob len g off = Returned r t'"
  shows "map_shape t'"
  using assms
  by (auto simp: Add_item_def Let_def map_shape_nth split: option.splits if_splits
      intro!: map_shape_update)

lemma Add_shape:
  assumes "map_shape t" "Add t param canId' ob len g off = Returned r t'"
  shows "map_shape t'"
proof -
  consider (err) "t' = t"
    | (old) e where "FindById t (word_of_int canId') = Some e"
        "Add_item t e param ob len g off = Returned r t'"
    | (new) e where "FindById t (word_of_int canId') = None" "FindById t CANID_UNSET = Some e"
        "Add_item (t[e := (t ! e)\<lparr>canId := word_of_int canId'\<rparr>]) e param ob len g off
           = Returned r t'"
    using assms(2) by (auto simp: Add_def split: if_splits option.splits)
  then show ?thesis
  proof cases
    case err
    with assms(1) show ?thesis by simp
  next
    case old
    from FindById_Some [OF old(1)] have "e < length t" by simp
    then show ?thesis by (rule Add_item_shape [OF assms(1) _ old(2)])
  next
    case new
    from FindById_Some [OF new(2)] have e: "e < length t" by simp
    have sh: "map_shape (t[e := (t ! e)\<lparr>canId := word_of_int canId'\<rparr>])"
      using assms(1) e by (simp add: map_shape_update map_shape_nth)
    have "e < length (t[e := (t ! e)\<lparr>canId := word_of_int canId'\<rparr>])"
      using e by simp
    then show ?thesis
      by (rule Add_item_shape [OF sh _ new(3)])
  qed
qed

section \<open>The copy loops in closed form\<close>

lemma CopyPos_closed:
  assumes "j + length (filter (\<lambda>p. uint (mapParam p) \<noteq> param) ps) \<le> length ditems"
  shows "CopyPos param ps ditems j removed discardId =
     (take j ditems @ filter (\<lambda>p. uint (mapParam p) \<noteq> param) ps
        @ drop (j + length (filter (\<lambda>p. uint (mapParam p) \<noteq> param) ps)) ditems,
      removed + int (length (filter (\<lambda>p. uint (mapParam p) = param) ps)),
      discardId \<and> filter (\<lambda>p. uint (mapParam p) \<noteq> param) ps = [])"
  using assms
proof (induction ps arbitrary: ditems j removed discardId)
  case Nil
  then show ?case by simp
next
  case (Cons p ps)
  show ?case
  proof (cases "uint (mapParam p) = param")
    case True
    with Cons show ?thesis by simp
  next
    case False
    let ?k = "filter (\<lambda>p. uint (mapParam p) \<noteq> param) ps"
    from Cons.prems False have j: "j < length ditems" and le: "Suc j + length ?k \<le> length (ditems[j := p])"
      by simp_all
    have tk: "take (Suc j) (ditems[j := p]) = take j ditems @ [p]"
      using j by (simp add: take_Suc_conv_app_nth)
    have dr: "drop (Suc j + length ?k) (ditems[j := p]) = drop (Suc j + length ?k) ditems"
      by simp
    from Cons.IH [OF le, of removed False] False tk dr show ?thesis
      by simp
  qed
qed


lemma length_kept_fields: "length (kept_fields param m) \<le> length (items m)"
  unfolding kept_fields_def forEachPosMap_def
  by (rule order_trans [OF length_filter_le]) (rule length_takeWhile_le)

lemma length_put_fields: "length ps \<le> length ds \<Longrightarrow> length (put_fields ps ds) = length ds"
  by (simp add: put_fields_def)

lemma CANIDMAP_items_same: "(d :: 'g CANIDMAP)\<lparr>items := items d\<rparr> = d"
  by simp

lemma CopyMsgs_closed:
  assumes "i + length (kept_msgs param src) \<le> length dest"
    and "\<forall>d\<in>set dest. length (items d) = n"
    and "\<forall>m\<in>set src. length (items m) \<le> n"
  shows "CopyMsgs param src dest i removed =
     (take i dest @ put_msgs (kept_msgs param src) (drop i dest),
      removed + int (length (filter (\<lambda>p. uint (mapParam p) = param)
                       (concat (map forEachPosMap src)))))"
  using assms
proof (induction src arbitrary: dest i removed)
  case Nil
  then show ?case by (simp add: kept_msgs_def)
next
  case (Cons m src)
  let ?kf = "kept_fields param m"
  let ?cnt = "int (length (filter (\<lambda>p. uint (mapParam p) = param) (forEachPosMap m)))"
  show ?case
  proof (cases "?kf = []")
    case True
    then have cp: "CopyPos param (forEachPosMap m) (items (dest ! i)) 0 removed True
        = (items (dest ! i), removed + ?cnt, True)"
      using CopyPos_closed [of 0 param "forEachPosMap m" "items (dest ! i)" removed True]
      by (simp add: kept_fields_def)
    have same: "dest[i := (dest ! i)\<lparr>items := items (dest ! i)\<rparr>] = dest"
      by (simp add: list_update_same_conv)
    have km: "kept_msgs param (m # src) = kept_msgs param src"
      using True by (simp add: kept_msgs_def)
    from Cons.IH [of i dest "removed + ?cnt"] Cons.prems km
    show ?thesis
      by (simp add: cp same add.assoc)
  next
    case False
    have km: "kept_msgs param (m # src) = (canId m, ?kf) # kept_msgs param src"
      using False by (simp add: kept_msgs_def)
    with Cons.prems(1) have i: "i < length dest" and le: "Suc i + length (kept_msgs param src) \<le> length dest"
      by simp_all
    from i Cons.prems(2) have n: "length (items (dest ! i)) = n" by simp
    from Cons.prems(3) length_kept_fields [of param m] have kn: "length ?kf \<le> n"
      by (simp add: order_trans)
    have cp: "CopyPos param (forEachPosMap m) (items (dest ! i)) 0 removed True
        = (put_fields ?kf (items (dest ! i)), removed + ?cnt, False)"
      using CopyPos_closed [of 0 param "forEachPosMap m" "items (dest ! i)" removed True] kn n False
      by (simp add: kept_fields_def put_fields_def)
    let ?new = "\<lparr>canId = canId m, items = put_fields ?kf (items (dest ! i))\<rparr>"
    let ?dest = "dest[i := ?new]"
    have upd: "dest[i := (dest ! i)\<lparr>canId := canId m, items := put_fields ?kf (items (dest ! i))\<rparr>] = ?dest"
      by (simp add: CANIDMAP_update_all)
    have sh: "\<forall>d\<in>set ?dest. length (items d) = n"
    proof
      fix d assume "d \<in> set ?dest"
      then have "d = ?new \<or> d \<in> set dest"
        using set_update_subset_insert [of dest i ?new] by auto
      then show "length (items d) = n"
        using Cons.prems(2) kn n by (auto simp: length_put_fields)
    qed
    have le': "Suc i + length (kept_msgs param src) \<le> length ?dest"
      using le by simp
    from Cons.prems(3) have src: "\<forall>m\<in>set src. length (items m) \<le> n" by simp
    have tk: "take (Suc i) ?dest = take i dest @ [?new]"
      using i by (simp add: take_Suc_conv_app_nth)
    have dr: "drop i dest = dest ! i # drop (Suc i) dest"
      using i by (simp add: Cons_nth_drop_Suc)
    from Cons.IH [OF le' sh src, of "removed + ?cnt"]
    show ?thesis
      by (simp add: cp upd km tk dr add.assoc)
  qed
qed

lemma kept_msgs_ok:
  assumes "\<forall>m\<in>set t. length (items m) \<le> n"
  shows "kept_ok param n (kept_msgs param (forEachCanMap t))"
proof -
  have "\<And>m. m \<in> set (forEachCanMap t) \<Longrightarrow> canId m \<noteq> CANID_UNSET \<and> length (items m) \<le> n"
    using assms by (auto simp: forEachCanMap_active active_msg_def dest: set_takeWhileD)
  moreover have "\<And>m p. p \<in> set (kept_fields param m) \<Longrightarrow> active_pos p \<and> uint (mapParam p) \<noteq> param"
    by (auto simp: kept_fields_def forEachPosMap_active dest: set_takeWhileD)
  ultimately show ?thesis
    using length_kept_fields
    by (fastforce simp: kept_ok_def kept_msgs_def intro: order_trans)
qed

lemma length_kept_msgs: "length (kept_msgs param (forEachCanMap t)) \<le> length t"
  unfolding kept_msgs_def forEachCanMap_def
  by (rule order_trans [OF length_filter_le]) (simp add: length_takeWhile_le)

lemma CopyIdMapExcept_closed:
  assumes "length src \<le> length dest"
    and "\<forall>d\<in>set dest. length (items d) = n"
    and "\<forall>m\<in>set src. length (items m) \<le> n"
  shows "CopyIdMapExcept src dest param =
     (put_msgs (kept_msgs param (forEachCanMap src)) dest, int (bound_fields param src))"
proof -
  have le: "0 + length (kept_msgs param (forEachCanMap src)) \<le> length dest"
    using length_kept_msgs [of param src] assms(1) by simp
  have src: "\<forall>m\<in>set (forEachCanMap src). length (items m) \<le> n"
    using assms(3) by (auto simp: forEachCanMap_def dest: set_takeWhileD)
  from CopyMsgs_closed [OF le assms(2) src, of 0] show ?thesis
    by (simp add: CopyIdMapExcept_def bound_fields_def)
qed

lemma takeWhile_put_fields:
  assumes "\<forall>p\<in>set ps. active_pos p" "\<forall>p\<in>set ds. \<not> active_pos p"
  shows "takeWhile active_pos (put_fields ps ds) = ps"
proof -
  have "takeWhile active_pos (drop (length ps) ds) = []"
  proof (cases "drop (length ps) ds")
    case Nil
    then show ?thesis by simp
  next
    case (Cons a list)
    then have "a \<in> set (drop (length ps) ds)" by simp
    then have "a \<in> set ds" by (rule in_set_dropD)
    with assms(2) Cons show ?thesis by simp
  qed
  with assms(1) show ?thesis
    by (simp add: put_fields_def takeWhile_append2)
qed

lemma kept_msgs_put_msgs:
  assumes "kept_ok param n K" "length K \<le> length D"
    and "\<forall>d\<in>set D. canId d = CANID_UNSET \<and> (\<forall>p\<in>set (items d). \<not> active_pos p)"
  shows "kept_msgs param (forEachCanMap (put_msgs K D)) = K"
  using assms
proof (induction K D rule: put_msgs.induct)
  case (1 c ps ks d ds)
  from "1.prems"(1) have c: "c \<noteq> CANID_UNSET" "ps \<noteq> []"
    and ps: "\<forall>p\<in>set ps. active_pos p" "\<forall>p\<in>set ps. uint (mapParam p) \<noteq> param"
    and ks: "kept_ok param n ks"
    by (auto simp: kept_ok_def)
  from "1.prems"(3) have d: "\<forall>p\<in>set (items d). \<not> active_pos p" by simp
  have kf: "kept_fields param \<lparr>canId = c, items = put_fields ps (items d)\<rparr> = ps"
    using ps by (simp add: kept_fields_def forEachPosMap_active takeWhile_put_fields [OF ps(1) d])
  from "1.IH" [OF ks] "1.prems"(2,3) have "kept_msgs param (forEachCanMap (put_msgs ks ds)) = ks"
    by simp
  with c kf show ?case
    by (simp add: forEachCanMap_active active_msg_def kept_msgs_def)
next
  case (2 ds)
  then have "forEachCanMap ds = []"
    by (cases ds) (auto simp: forEachCanMap_active active_msg_def)
  then show ?case by (simp add: kept_msgs_def)
next
  case (3 k ks)
  then show ?case by (simp add: forEachCanMap_def kept_msgs_def)
qed

lemma ClearMap_cleared:
  "\<forall>d\<in>set (ClearMap t). canId d = CANID_UNSET \<and> (\<forall>p\<in>set (items d). \<not> active_pos p)"
  by (auto simp: ClearMap_def active_pos_def)

lemma ClearMap_length [simp]: "length (ClearMap t) = length t"
  by (simp add: ClearMap_def)

lemma ClearMap_items_length:
  "\<forall>m\<in>set t. length (items m) = n \<Longrightarrow> \<forall>d\<in>set (ClearMap t). length (items d) = n"
  by (auto simp: ClearMap_def)

lemma put_msgs_length [simp]: "length (put_msgs K D) = length D"
  by (induction K D rule: put_msgs.induct) simp_all

lemma put_msgs_items_length:
  assumes "\<forall>d\<in>set D. length (items d) = n" "\<forall>(c, ps)\<in>set K. length ps \<le> n"
  shows "\<forall>d\<in>set (put_msgs K D). length (items d) = n"
  using assms
  by (induction K D rule: put_msgs.induct) (auto simp: length_put_fields)

lemma RemoveFromMap_closed:
  assumes "map_shape stack" "map_shape t"
  shows "RemoveFromMap stack t param =
     (put_msgs (kept_msgs param (forEachCanMap t)) (ClearMap t), int (bound_fields param t))"
proof -
  let ?K = "kept_msgs param (forEachCanMap t)"
  let ?n = MAX_ITEMS_PER_MESSAGE
  from assms have len: "length t \<le> length (ClearMap stack)"
    and st: "\<forall>d\<in>set (ClearMap stack). length (items d) = ?n"
    and t: "\<forall>m\<in>set t. length (items m) \<le> ?n" "\<forall>m\<in>set t. length (items m) = ?n"
    by (auto simp: map_shape_def list_all_iff ClearMap_def)
  have c1: "CopyIdMapExcept t (ClearMap stack) param = (put_msgs ?K (ClearMap stack), int (bound_fields param t))"
    by (rule CopyIdMapExcept_closed [OF len st t(1)])
  have ok: "kept_ok param ?n ?K"
    by (rule kept_msgs_ok [OF t(1)])
  have lk: "length ?K \<le> length (ClearMap stack)"
    using length_kept_msgs [of param t] len by simp
  have k2: "kept_msgs param (forEachCanMap (put_msgs ?K (ClearMap stack))) = ?K"
    by (rule kept_msgs_put_msgs [OF ok lk ClearMap_cleared])
  have okl: "\<forall>(c, ps)\<in>set ?K. length ps \<le> ?n"
    using ok by (auto simp: kept_ok_def)
  have len2: "length (put_msgs ?K (ClearMap stack)) \<le> length (ClearMap t)"
    using assms by (simp add: map_shape_def)
  have sh2: "\<forall>m\<in>set (put_msgs ?K (ClearMap stack)). length (items m) \<le> ?n"
    using put_msgs_items_length [OF st okl] by simp
  have c2: "CopyIdMapExcept (put_msgs ?K (ClearMap stack)) (ClearMap t) param =
      (put_msgs ?K (ClearMap t), int (bound_fields param (put_msgs ?K (ClearMap stack))))"
    using CopyIdMapExcept_closed [OF len2 ClearMap_items_length [OF t(2)] sh2, of param]
    by (simp add: k2)
  show ?thesis
    by (simp add: RemoveFromMap_def Let_def c1 c2)
qed

section \<open>Remove and the lookup of a parameter\<close>

lemma FindPos_None: "FindPos param ps = None \<longleftrightarrow> (\<forall>p\<in>set ps. uint (mapParam p) \<noteq> param)"
  by (induction ps) auto

lemma FindInMsgs_None:
  "FindInMsgs param ms = None \<longleftrightarrow>
     (\<forall>m\<in>set ms. \<forall>p\<in>set (forEachPosMap m). uint (mapParam p) \<noteq> param)"
proof (induction ms)
  case Nil
  then show ?case by simp
next
  case (Cons m ms)
  show ?case
  proof (cases "FindPos param (forEachPosMap m)")
    case None
    then have "\<forall>p\<in>set (forEachPosMap m). uint (mapParam p) \<noteq> param"
      by (simp add: FindPos_None)
    with Cons None show ?thesis by simp
  next
    case (Some p)
    then have "FindPos param (forEachPosMap m) \<noteq> None" by simp
    then have "\<not> (\<forall>p\<in>set (forEachPosMap m). uint (mapParam p) \<noteq> param)"
      by (simp add: FindPos_None)
    with Some show ?thesis by auto
  qed
qed

lemma FindMap_None:
  "FindMap s r param = None \<longleftrightarrow>
     FindInMsgs param (forEachCanMap s) = None \<and> FindInMsgs param (forEachCanMap r) = None"
  by (auto simp: FindMap_def split: option.splits)

lemma bound_fields_0:
  "bound_fields param t = 0 \<longleftrightarrow> FindInMsgs param (forEachCanMap t) = None"
  by (auto simp: bound_fields_def FindInMsgs_None filter_empty_conv)

lemma forEachPosMap_put_msgs:
  assumes "kept_ok param n K" "length K \<le> length D"
    and "\<forall>d\<in>set D. canId d = CANID_UNSET \<and> (\<forall>p\<in>set (items d). \<not> active_pos p)"
  shows "\<forall>m\<in>set (put_msgs K D). \<forall>p\<in>set (forEachPosMap m). uint (mapParam p) \<noteq> param"
  using assms
proof (induction K D rule: put_msgs.induct)
  case (1 c ps ks d ds)
  from "1.prems"(1) have ps: "\<forall>p\<in>set ps. active_pos p" "\<forall>p\<in>set ps. uint (mapParam p) \<noteq> param"
    and ks: "kept_ok param n ks"
    by (auto simp: kept_ok_def)
  from "1.prems"(3) have d: "\<forall>p\<in>set (items d). \<not> active_pos p" by simp
  have "forEachPosMap \<lparr>canId = c, items = put_fields ps (items d)\<rparr> = ps"
    by (simp add: forEachPosMap_active takeWhile_put_fields [OF ps(1) d])
  moreover from "1.IH" [OF ks] "1.prems"(2,3)
  have "\<forall>m\<in>set (put_msgs ks ds). \<forall>p\<in>set (forEachPosMap m). uint (mapParam p) \<noteq> param"
    by simp
  ultimately show ?case using ps(2) by simp
next
  case (2 ds)
  have "\<And>m. m \<in> set ds \<Longrightarrow> forEachPosMap m = []"
  proof -
    fix m assume "m \<in> set ds"
    with "2.prems"(3) have "\<forall>p\<in>set (items m). \<not> active_pos p" by simp
    then show "forEachPosMap m = []"
      by (cases "items m") (auto simp: forEachPosMap_active)
  qed
  then show ?case by simp
next
  case (3 k ks)
  then show ?case by simp
qed

lemma RemoveFromMap_absent_after:
  assumes "map_shape stack" "map_shape t"
  shows "FindInMsgs param (forEachCanMap (fst (RemoveFromMap stack t param))) = None"
proof -
  let ?K = "kept_msgs param (forEachCanMap t)"
  from assms(2) have t: "\<forall>m\<in>set t. length (items m) \<le> MAX_ITEMS_PER_MESSAGE"
    by (auto simp: map_shape_def list_all_iff)
  have "\<forall>m\<in>set (put_msgs ?K (ClearMap t)). \<forall>p\<in>set (forEachPosMap m). uint (mapParam p) \<noteq> param"
    using length_kept_msgs [of param t]
    by (intro forEachPosMap_put_msgs [OF kept_msgs_ok [OF t] _ ClearMap_cleared]) simp
  then show ?thesis
    by (auto simp: RemoveFromMap_closed [OF assms] FindInMsgs_None forEachCanMap_def dest: set_takeWhileD)
qed

lemma CANPOS_numBits_same: "numBits p = 0 \<Longrightarrow> (p :: 'g CANPOS)\<lparr>numBits := 0\<rparr> = p"
  by (cases p) simp

lemma put_fields_clear_id:
  assumes "list_all (\<lambda>p. numBits p = 0) (dropWhile active_pos is)"
  shows "put_fields (takeWhile active_pos is) (map (\<lambda>p. p\<lparr>numBits := 0\<rparr>) is) = is"
proof -
  have "drop (length (takeWhile active_pos is)) (map (\<lambda>p. p\<lparr>numBits := 0\<rparr>) is)
      = map (\<lambda>p. p\<lparr>numBits := 0\<rparr>) (dropWhile active_pos is)"
    by (simp add: drop_map dropWhile_eq_drop)
  also have "\<dots> = dropWhile active_pos is"
    using assms by (intro map_idI) (auto simp: list_all_iff CANPOS_numBits_same)
  finally show ?thesis
    by (simp add: put_fields_def)
qed

lemma ClearMap_Cons: "ClearMap (m # ms) =
    m\<lparr>canId := CANID_UNSET, items := map (\<lambda>p. p\<lparr>numBits := 0\<rparr>) (items m)\<rparr> # ClearMap ms"
  by (simp add: ClearMap_def)

lemma ClearMap_unused_id:
  assumes "\<forall>m\<in>set t. \<not> active_msg m \<and> msg_canonical m"
  shows "ClearMap t = t"
proof -
  have "\<And>m. m \<in> set t \<Longrightarrow>
     m\<lparr>canId := CANID_UNSET, items := map (\<lambda>p. p\<lparr>numBits := 0\<rparr>) (items m)\<rparr> = m"
  proof -
    fix m assume "m \<in> set t"
    with assms have m: "canId m = CANID_UNSET" "forEachPosMap m = []"
      "list_all (\<lambda>p. numBits p = 0) (dropWhile active_pos (items m))"
      by (auto simp: msg_canonical_def active_msg_def)
    from m(2) have "dropWhile active_pos (items m) = items m"
      by (cases "items m") (auto simp: forEachPosMap_active split: if_splits)
    with m(3) have "map (\<lambda>p. p\<lparr>numBits := 0\<rparr>) (items m) = items m"
      by (intro map_idI) (auto simp: list_all_iff CANPOS_numBits_same)
    with m(1) show "m\<lparr>canId := CANID_UNSET, items := map (\<lambda>p. p\<lparr>numBits := 0\<rparr>) (items m)\<rparr> = m"
      by (cases m) simp
  qed
  then show ?thesis
    by (simp add: ClearMap_def map_idI)
qed

lemma rebuild_canonical_id:
  assumes "map_canonical t"
    and "\<forall>m\<in>set (forEachCanMap t). \<forall>p\<in>set (forEachPosMap m). uint (mapParam p) \<noteq> param"
  shows "put_msgs (kept_msgs param (forEachCanMap t)) (ClearMap t) = t"
  using assms
proof (induction t)
  case Nil
  then show ?case by (simp add: ClearMap_def forEachCanMap_def kept_msgs_def)
next
  case (Cons m ms)
  from Cons.prems(1) have mc: "msg_canonical m" and all: "list_all msg_canonical ms"
    by (simp_all add: map_canonical_def)
  show ?case
  proof (cases "active_msg m")
    case True
    with Cons.prems(1) all have can: "map_canonical ms"
      by (simp add: map_canonical_def packed_Cons)
    from True have fe: "forEachCanMap (m # ms) = m # forEachCanMap ms"
      by (simp add: forEachCanMap_active)
    with Cons.prems(2) have nb: "\<forall>p\<in>set (forEachPosMap m). uint (mapParam p) \<noteq> param"
      and rest: "\<forall>m\<in>set (forEachCanMap ms). \<forall>p\<in>set (forEachPosMap m). uint (mapParam p) \<noteq> param"
      by simp_all
    from nb have kf: "kept_fields param m = forEachPosMap m"
      by (simp add: kept_fields_def)
    from mc True have ne: "forEachPosMap m \<noteq> []" and z: "list_all (\<lambda>p. numBits p = 0) (dropWhile active_pos (items m))"
      by (simp_all add: msg_canonical_def)
    have "\<lparr>canId = canId m, items = put_fields (forEachPosMap m) (map (\<lambda>p. p\<lparr>numBits := 0\<rparr>) (items m))\<rparr> = m"
      using put_fields_clear_id [OF z] by (cases m) (simp add: forEachPosMap_active)
    with Cons.IH [OF can rest] show ?thesis
      by (simp add: fe kept_msgs_def kf ne ClearMap_Cons)
  next
    case False
    with Cons.prems(1) have "\<forall>y\<in>set (m # ms). \<not> active_msg y"
      by (simp add: map_canonical_def packed_Cons)
    with mc all have "ClearMap (m # ms) = m # ms"
      by (intro ClearMap_unused_id) (auto simp: list_all_iff)
    moreover from False have "forEachCanMap (m # ms) = []"
      by (simp add: forEachCanMap_active)
    ultimately show ?thesis
      by (simp add: kept_msgs_def)
  qed
qed

lemma RemoveFromMap_absent:
  assumes "map_shape stack" "map_shape t" "FindInMsgs param (forEachCanMap t) = None"
  shows "snd (RemoveFromMap stack t param) = 0"
    and "map_canonical t \<Longrightarrow> fst (RemoveFromMap stack t param) = t"
proof -
  from assms(3) show "snd (RemoveFromMap stack t param) = 0"
    by (simp add: RemoveFromMap_closed [OF assms(1,2)] bound_fields_0)
  assume "map_canonical t"
  with assms(3) show "fst (RemoveFromMap stack t param) = t"
    by (simp add: RemoveFromMap_closed [OF assms(1,2)] rebuild_canonical_id FindInMsgs_None)
qed

lemma packed_append:
  assumes "\<forall>x\<in>set xs. P x" "\<forall>y\<in>set ys. \<not> P y"
  shows "packed P (xs @ ys)"
proof -
  from assms(2) have "dropWhile P ys = ys"
    by (cases ys) auto
  with assms show ?thesis
    by (simp add: packed_def dropWhile_append2 list_all_iff)
qed

lemma ClearMap_zero:
  "\<forall>d\<in>set (ClearMap t). canId d = CANID_UNSET \<and> (\<forall>p\<in>set (items d). numBits p = 0)"
  by (auto simp: ClearMap_def)

lemma cleared_msg_canonical:
  assumes "canId d = CANID_UNSET" "\<forall>p\<in>set (items d). numBits p = 0"
  shows "msg_canonical d" "packed active_pos (items d)" "\<not> active_msg d"
proof -
  from assms(2) have na: "\<forall>p\<in>set (items d). \<not> active_pos p"
    by (simp add: active_pos_def)
  then have tw: "takeWhile active_pos (items d) = []" and dw: "dropWhile active_pos (items d) = items d"
    by (cases "items d"; simp)+
  from assms tw dw show "msg_canonical d"
    by (simp add: msg_canonical_def active_msg_def forEachPosMap_active list_all_iff)
  from na show "packed active_pos (items d)" by (rule packed_none)
  from assms(1) show "\<not> active_msg d" by (simp add: active_msg_def)
qed

lemma rebuild_properties:
  assumes "kept_ok param n K" "length K \<le> length D"
    and "\<forall>d\<in>set D. canId d = CANID_UNSET \<and> (\<forall>p\<in>set (items d). numBits p = 0)"
  shows "packed active_msg (put_msgs K D)
       \<and> list_all msg_canonical (put_msgs K D)
       \<and> list_all (\<lambda>m. packed active_pos (items m)) (put_msgs K D)
       \<and> filter (\<lambda>c. c \<noteq> CANID_UNSET) (map canId (put_msgs K D)) = map fst K"
  using assms
proof (induction K D rule: put_msgs.induct)
  case (1 c ps ks d ds)
  from "1.prems"(1) have c: "c \<noteq> CANID_UNSET" "ps \<noteq> []"
    and ps: "\<forall>p\<in>set ps. active_pos p"
    and ks: "kept_ok param n ks"
    by (auto simp: kept_ok_def)
  from "1.prems"(3) have d: "\<forall>p\<in>set (items d). numBits p = 0" by simp
  then have dn: "\<forall>p\<in>set (items d). \<not> active_pos p" by (simp add: active_pos_def)
  let ?m = "\<lparr>canId = c, items = put_fields ps (items d)\<rparr>"
  have tw: "takeWhile active_pos (put_fields ps (items d)) = ps"
    by (rule takeWhile_put_fields [OF ps dn])
  have dr: "\<forall>p\<in>set (drop (length ps) (items d)). \<not> active_pos p"
    using dn by (auto dest: in_set_dropD)
  then have "dropWhile active_pos (drop (length ps) (items d)) = drop (length ps) (items d)"
    by (cases "drop (length ps) (items d)") auto
  with ps have dw: "dropWhile active_pos (put_fields ps (items d)) = drop (length ps) (items d)"
    by (simp add: put_fields_def dropWhile_append2)
  have "msg_canonical ?m"
    using c d by (auto simp: msg_canonical_def forEachPosMap_active tw dw list_all_iff active_msg_def
        dest: in_set_dropD)
  moreover have "packed active_pos (items ?m)"
    using packed_append [OF ps dr] by (simp add: put_fields_def)
  moreover have "active_msg ?m"
    using c by (simp add: active_msg_def)
  moreover note "1.IH" [OF ks] "1.prems"(2,3)
  ultimately show ?case
    using c by (simp add: packed_Cons)
next
  case (2 ds)
  then show ?case
    by (auto simp: list_all_iff filter_empty_conv cleared_msg_canonical intro!: packed_none)
next
  case (3 k ks)
  then show ?case by simp
qed

lemma distinct_kept_ids:
  assumes "map_inv t"
  shows "distinct (map fst (kept_msgs param (forEachCanMap t)))"
proof -
  from assms have pk: "packed active_msg t"
    and d: "distinct (filter (\<lambda>c. c \<noteq> CANID_UNSET) (map canId t))"
    by (simp_all add: map_inv_def)
  have "filter (\<lambda>c. c \<noteq> CANID_UNSET) (map canId t) = map canId (filter active_msg t)"
    by (simp add: filter_map comp_def active_msg_def [abs_def])
  with d pk have dv: "distinct (map canId (forEachCanMap t))"
    by (simp add: packed_filter forEachCanMap_active)
  have "map fst (kept_msgs param (forEachCanMap t))
      = map canId (filter (\<lambda>m. kept_fields param m \<noteq> []) (forEachCanMap t))"
    by (simp add: kept_msgs_def filter_map comp_def)
  with dv show ?thesis
    by (simp add: distinct_map_filter)
qed

lemma RemoveFromMap_inv:
  assumes "map_shape stack" "map_shape t"
  shows "map_shape (fst (RemoveFromMap stack t param))"
    and "map_canonical (fst (RemoveFromMap stack t param))"
    and "map_inv t \<Longrightarrow> map_inv (fst (RemoveFromMap stack t param))"
proof -
  let ?K = "kept_msgs param (forEachCanMap t)"
  let ?n = MAX_ITEMS_PER_MESSAGE
  from assms(2) have t: "\<forall>m\<in>set t. length (items m) \<le> ?n" "\<forall>m\<in>set t. length (items m) = ?n"
    by (auto simp: map_shape_def list_all_iff)
  have ok: "kept_ok param ?n ?K"
    by (rule kept_msgs_ok [OF t(1)])
  have lk: "length ?K \<le> length (ClearMap t)"
    using length_kept_msgs [of param t] by simp
  note props = rebuild_properties [OF ok lk ClearMap_zero]
  have okl: "\<forall>(c, ps)\<in>set ?K. length ps \<le> ?n"
    using ok by (auto simp: kept_ok_def)
  show "map_shape (fst (RemoveFromMap stack t param))"
    using assms(2) put_msgs_items_length [OF ClearMap_items_length [OF t(2)] okl]
    by (simp add: RemoveFromMap_closed [OF assms] map_shape_def list_all_iff)
  show "map_canonical (fst (RemoveFromMap stack t param))"
    using props by (simp add: RemoveFromMap_closed [OF assms] map_canonical_def)
  assume "map_inv t"
  from distinct_kept_ids [OF this, of param] props
  show "map_inv (fst (RemoveFromMap stack t param))"
    by (simp add: RemoveFromMap_closed [OF assms] map_inv_def)
qed

section \<open>The word image of a table\<close>

lemma CANPOS_of_words_words:
  "CANPOS_words padding p = [w0, w1, w2] \<Longrightarrow> CANPOS_of_words w0 w1 w2 = p"
proof -
  assume "CANPOS_words padding p = [w0, w1, w2]"
  then have w: "w0 = word_cat (offset p) (mapParam p)" "w1 = gain p"
    "w2 = word_cat padding (word_cat (numBits p) (offsetBits p) :: 16 word)"
    by (simp_all add: CANPOS_words_def)
  have "(ucast w0 :: 16 word) = mapParam p"
    unfolding w by (rule bit_word_eqI) (auto simp: bit_simps)
  moreover have "(ucast (drop_bit 16 w0) :: 16 word) = offset p"
    unfolding w by (rule bit_word_eqI) (auto simp: bit_simps)
  moreover have "(ucast w2 :: 8 word) = offsetBits p"
    unfolding w by (rule bit_word_eqI) (auto simp: bit_simps)
  moreover have "(ucast (drop_bit 8 w2) :: 8 word) = numBits p"
    unfolding w by (rule bit_word_eqI) (auto simp: bit_simps)
  ultimately show ?thesis
    using w(2) by (cases p) (simp add: CANPOS_of_words_def)
qed

lemma items_of_words_items_words:
  "items_of_words (length ps) (items_words pad j ps @ rest) = (ps, rest)"
proof (induction ps arbitrary: j)
  case Nil
  then show ?case by simp
next
  case (Cons p ps)
  obtain w0 w1 w2 where w: "CANPOS_words (pad j) p = [w0, w1, w2]"
    by (simp add: CANPOS_words_def)
  from CANPOS_of_words_words [OF w] Cons.IH [of "Suc j"] w show ?case
    by simp
qed

lemma items_of_words_0: "items_of_words 0 ws = ([], ws)"
  by simp

lemma msgs_of_words_0: "msgs_of_words 0 k ws = ([], ws)"
  by simp

lemma msgs_of_words_map_words:
  assumes "\<forall>m\<in>set ms. length (items m) = k"
  shows "msgs_of_words (length ms) k (map_words pad i ms @ rest) = (ms, rest)"
  using assms
proof (induction ms arbitrary: i)
  case Nil
  then show ?case by simp
next
  case (Cons m ms)
  from Cons.prems have k: "length (items m) = k" and rest: "\<forall>m\<in>set ms. length (items m) = k"
    by simp_all
  have "items_of_words k (items_words (pad i) 0 (items m) @ (map_words pad (Suc i) ms @ rest))
      = (items m, map_words pad (Suc i) ms @ rest)"
    using items_of_words_items_words [of "items m" "pad i" 0] k by simp
  with Cons.IH [OF rest, of "Suc i"] show ?case
    by simp
qed

lemma length_items_words: "length (items_words pad j ps) = 3 * length ps"
  by (induction ps arbitrary: j) (simp_all add: CANPOS_words_def)

lemma length_map_words:
  assumes "\<forall>m\<in>set ms. length (items m) = k"
  shows "length (map_words pad i ms) = length ms * (1 + 3 * k)"
  using assms by (induction ms arbitrary: i) (simp_all add: length_items_words)

lemma map_of_words_map_words:
  assumes "map_shape t"
  shows "map_of_words (map_words pad 0 t @ rest) = t"
    and "length (map_words pad 0 t) = MAP_WORDS"
proof -
  from assms have len: "length t = MAX_MESSAGES"
    and it: "\<forall>m\<in>set t. length (items m) = MAX_ITEMS_PER_MESSAGE"
    by (simp_all add: map_shape_def list_all_iff)
  from msgs_of_words_map_words [OF it, of pad 0 rest] len
  show "map_of_words (map_words pad 0 t @ rest) = t"
    by (simp add: map_of_words_def)
  from length_map_words [OF it, of pad 0] len
  show "length (map_words pad 0 t) = MAP_WORDS"
    by (simp add: MAP_WORDS_def)
qed

section \<open>Programming the flash, and the checksum\<close>

lemma word32_ones_AND: "(0xFFFFFFFF :: 32 word) AND w = w"
proof -
  have "(0xFFFFFFFF :: 32 word) = - 1" by simp
  then have "(0xFFFFFFFF :: 32 word) AND w = - 1 AND w" by (rule arg_cong)
  also have "\<dots> = w" by simp
  finally show ?thesis .
qed

lemma crc_calculate_block_foldl:
  "crc_calculate_block step ws h = (foldl step (crc_dr h) ws, h\<lparr>crc_dr := foldl step (crc_dr h) ws\<rparr>)"
  by (induction ws arbitrary: h) (simp_all add: crc_calculate_def)

lemma SaveToFlash_loop_erased:
  assumes "a + length ws \<le> length (flash h)"
    and "\<forall>i<length ws. flash h ! (a + i) = 0xFFFFFFFF"
  shows "SaveToFlash_loop step a ws crc h =
     (if ws = [] then crc else foldl step (crc_dr h) ws,
      \<lparr>flash = take a (flash h) @ ws @ drop (a + length ws) (flash h),
       crc_dr = foldl step (crc_dr h) ws\<rparr>)"
  using assms
proof (induction ws arbitrary: a crc h)
  case Nil
  then show ?case by simp
next
  case (Cons w ws)
  let ?h1 = "h\<lparr>crc_dr := step (crc_dr h) w\<rparr>"
  let ?h2 = "flash_program_word a w ?h1"
  from Cons.prems have a: "a < length (flash h)" and e: "flash h ! a = 0xFFFFFFFF"
    by (simp, force)
  have fl: "flash ?h2 = (flash h)[a := w]"
    using e by (simp add: flash_program_word_def word32_ones_AND)
  have cr: "crc_dr ?h2 = step (crc_dr h) w"
    by (simp add: flash_program_word_def)
  have le: "Suc a + length ws \<le> length (flash ?h2)"
    using Cons.prems(1) by (simp add: fl)
  have er: "\<forall>i<length ws. flash ?h2 ! (Suc a + i) = 0xFFFFFFFF"
  proof (intro allI impI)
    fix i assume "i < length ws"
    then have "flash h ! (a + Suc i) = 0xFFFFFFFF"
      using Cons.prems(2) by (metis Suc_less_eq length_Cons)
    then show "flash ?h2 ! (Suc a + i) = 0xFFFFFFFF"
      by (simp add: fl)
  qed
  have tk: "take (Suc a) ((flash h)[a := w]) = take a (flash h) @ [w]"
    using a by (simp add: take_Suc_conv_app_nth)
  from Cons.IH [OF le er, of "step (crc_dr h) w"] show ?case
    by (simp add: crc_calculate_def fl cr tk)
qed

section \<open>Save and the translation of the parameter references\<close>

lemma CANPOS_mapParam_same: "(p :: 'g CANPOS)\<lparr>mapParam := mapParam p\<rparr> = p"
  by simp



lemma length_replace_pos [simp]: "length (replace_pos f ps) = length ps"
  by (induction ps) auto

lemma replace_msgs_shape: "map_shape t \<Longrightarrow> map_shape (replace_msgs f t)"
proof -
  have "length (replace_msgs f t) = length t"
    by (induction t) auto
  moreover have "list_all (\<lambda>m. length (items m) = n) t \<Longrightarrow>
      list_all (\<lambda>m. length (items m) = n) (replace_msgs f t)" for n
    by (induction t) auto
  ultimately show "map_shape t \<Longrightarrow> map_shape (replace_msgs f t)"
    by (simp add: map_shape_def)
qed

text \<open>
  What \<open>Save\<close> leaves when the block was erased: the image of the send table, the image of
  the receive table and the checksum over both, in this order.
\<close>

lemma Save_result:
  fixes padS padR :: "nat \<Rightarrow> nat \<Rightarrow> 16 word" and GetAttrib_id :: "int \<Rightarrow> 32 word"
  assumes sh: "map_shape (canSendMap c)" "map_shape (canRecvMap c)"
    and len: "MAP_WORDS + MAP_WORDS < length (flash (nv c))"
    and erased: "\<forall>a\<le>MAP_WORDS + MAP_WORDS. flash (nv c) ! a = 0xFFFFFFFF"
  defines "imgS \<equiv> map_words padS 0 (ReplaceParamEnumByUid GetAttrib_id (canSendMap c))"
    and "imgR \<equiv> map_words padR 0 (ReplaceParamEnumByUid GetAttrib_id (canRecvMap c))"
  shows "Save step GetAttrib_id NumFromId padS padR c =
     \<lparr>canSendMap = ReplaceParamUidByEnum NumFromId (ReplaceParamEnumByUid GetAttrib_id (canSendMap c)),
      canRecvMap = ReplaceParamUidByEnum NumFromId (ReplaceParamEnumByUid GetAttrib_id (canRecvMap c)),
      isSaving = False,
      nv = \<lparr>flash = imgS @ imgR @ [foldl step 0xFFFFFFFF (imgS @ imgR)]
                     @ drop (MAP_WORDS + MAP_WORDS + 1) (flash (nv c)),
            crc_dr = step (foldl step 0xFFFFFFFF (imgS @ imgR)) (foldl step 0xFFFFFFFF (imgS @ imgR))\<rparr>\<rparr>"
proof -
  let ?fl = "flash (nv c)"
  let ?crc = "foldl step (foldl step 0xFFFFFFFF imgS) imgR"
  have lS: "length imgS = MAP_WORDS" and lR: "length imgR = MAP_WORDS"
    unfolding imgS_def imgR_def ReplaceParamEnumByUid_def
    by (rule map_of_words_map_words(2) [OF replace_msgs_shape [OF sh(1)]],
        rule map_of_words_map_words(2) [OF replace_msgs_shape [OF sh(2)]])
  have pos: "0 < MAP_WORDS"
    by (simp add: MAP_WORDS_def MAX_MESSAGES_def)
  then have ne: "imgS \<noteq> []" "imgR \<noteq> []"
    using lS lR by auto
  let ?h0 = "crc_reset (nv c)"
  have h0: "flash ?h0 = ?fl" "crc_dr ?h0 = 0xFFFFFFFF"
    by (simp_all add: crc_reset_def)
  have s1: "SaveToFlash step 0 imgS ?h0 =
      (foldl step 0xFFFFFFFF imgS,
       \<lparr>flash = imgS @ drop MAP_WORDS ?fl, crc_dr = foldl step 0xFFFFFFFF imgS\<rparr>)"
    unfolding SaveToFlash_def
    using SaveToFlash_loop_erased [of 0 imgS ?h0 step 0] len erased ne
    by (simp add: h0 lS)
  let ?h1 = "\<lparr>flash = imgS @ drop MAP_WORDS ?fl, crc_dr = foldl step 0xFFFFFFFF imgS\<rparr>"
  have e1: "\<forall>i<length imgR. flash ?h1 ! (MAP_WORDS + i) = 0xFFFFFFFF"
    using erased len by (simp add: lS lR nth_append)
  have s2: "SaveToFlash step MAP_WORDS imgR ?h1 =
      (?crc, \<lparr>flash = imgS @ imgR @ drop (MAP_WORDS + MAP_WORDS) ?fl, crc_dr = ?crc\<rparr>)"
    unfolding SaveToFlash_def
    using SaveToFlash_loop_erased [of MAP_WORDS imgR ?h1 step 0] len e1 ne
    by (simp add: lS lR)
  let ?h2 = "\<lparr>flash = imgS @ imgR @ drop (MAP_WORDS + MAP_WORDS) ?fl, crc_dr = ?crc\<rparr>"
  have e2: "\<forall>i<length [?crc]. flash ?h2 ! (MAP_WORDS + MAP_WORDS + i) = 0xFFFFFFFF"
    using erased len by (simp add: lS lR nth_append)
  have s3: "SaveToFlash step (MAP_WORDS + MAP_WORDS) [?crc] ?h2 =
      (step ?crc ?crc,
       \<lparr>flash = imgS @ imgR @ [?crc] @ drop (MAP_WORDS + MAP_WORDS + 1) ?fl,
        crc_dr = step ?crc ?crc\<rparr>)"
    unfolding SaveToFlash_def
    using SaveToFlash_loop_erased [of "MAP_WORDS + MAP_WORDS" "[?crc]" ?h2 step 0] len e2
    by (simp add: lS lR)
  have "Save step GetAttrib_id NumFromId padS padR c =
      c\<lparr>canSendMap := ReplaceParamUidByEnum NumFromId (ReplaceParamEnumByUid GetAttrib_id (canSendMap c)),
        canRecvMap := ReplaceParamUidByEnum NumFromId (ReplaceParamEnumByUid GetAttrib_id (canRecvMap c)),
        isSaving := False,
        nv := \<lparr>flash = imgS @ imgR @ [?crc] @ drop (MAP_WORDS + MAP_WORDS + 1) ?fl,
               crc_dr = step ?crc ?crc\<rparr>\<rparr>"
    unfolding Save_def Let_def
    by (simp add: imgS_def [symmetric] imgR_def [symmetric] s1 s2 s3)
  then show ?thesis
    by (cases c) simp
qed

section \<open>The memory of a table and the model of the arrays\<close>

text \<open>
  The words of a table split at a message and at a field slot, which gives the word index
  of a slot and what an assignment to the slot does to the words. With this, \<open>Add_layout\<close> on
  the words of a table of the arrays' sizes does what \<open>Add\<close> does on the table, whenever \<open>Add\<close>
  returns: the two differ only where the scan leaves the field array.
\<close>

lemma items_words_append:
  "items_words pad j (ps @ qs) = items_words pad j ps @ items_words pad (j + length ps) qs"
  by (induction ps arbitrary: j) simp_all

lemma map_words_append:
  "map_words pad i (ms @ ns) = map_words pad i ms @ map_words pad (i + length ms) ns"
  by (induction ms arbitrary: i) simp_all

lemma items_words_split:
  assumes "k < length ps"
  shows "items_words pad 0 ps =
     items_words pad 0 (take k ps) @ CANPOS_words (pad k) (ps ! k) @
       items_words pad (Suc k) (drop (Suc k) ps)"
proof -
  have "items_words pad 0 ps = items_words pad 0 (take k ps @ ps ! k # drop (Suc k) ps)"
    using assms by (simp only: id_take_nth_drop [symmetric])
  also have "\<dots> = items_words pad 0 (take k ps) @ CANPOS_words (pad k) (ps ! k) @
       items_words pad (Suc k) (drop (Suc k) ps)"
    using assms by (simp add: items_words_append)
  finally show ?thesis .
qed

lemma items_words_update:
  assumes "k < length ps"
  shows "items_words pad 0 (ps[k := p]) =
     items_words pad 0 (take k ps) @ CANPOS_words (pad k) p @
       items_words pad (Suc k) (drop (Suc k) ps)"
  using assms by (simp add: upd_conv_take_nth_drop items_words_append)

lemma map_words_split:
  assumes "e < length t"
  shows "map_words pad 0 t =
     map_words pad 0 (take e t) @ [canId (t ! e)] @ items_words (pad e) 0 (items (t ! e)) @
       map_words pad (Suc e) (drop (Suc e) t)"
proof -
  have "map_words pad 0 t = map_words pad 0 (take e t @ t ! e # drop (Suc e) t)"
    using assms by (simp only: id_take_nth_drop [symmetric])
  also have "\<dots> = map_words pad 0 (take e t) @ [canId (t ! e)] @
       items_words (pad e) 0 (items (t ! e)) @ map_words pad (Suc e) (drop (Suc e) t)"
    using assms by (simp add: map_words_append)
  finally show ?thesis .
qed

lemma map_words_update:
  assumes "e < length t"
  shows "map_words pad 0 (t[e := m]) =
     map_words pad 0 (take e t) @ [canId m] @ items_words (pad e) 0 (items m) @
       map_words pad (Suc e) (drop (Suc e) t)"
  using assms by (simp add: upd_conv_take_nth_drop map_words_append)

lemma length_map_words_take:
  assumes "map_shape t" "e < length t"
  shows "length (map_words pad 0 (take e t)) = e * CANIDMAP_WORDS"
proof -
  have "\<forall>m\<in>set (take e t). length (items m) = MAX_ITEMS_PER_MESSAGE"
    using assms(1) by (auto simp: map_shape_def list_all_iff dest: in_set_takeD)
  from length_map_words [OF this] assms(2) show ?thesis
    by (simp add: CANIDMAP_WORDS_def)
qed

lemma slot_numBits_words:
  "slot_numBits (A @ CANPOS_words padding p @ B) (length A) = numBits p"
proof -
  have "(ucast (drop_bit 8 (word_cat padding (word_cat (numBits p) (offsetBits p) :: 16 word) :: 32 word)) :: 8 word)
      = numBits p"
    by (rule bit_word_eqI) (auto simp: bit_simps)
  then show ?thesis
    by (simp add: slot_numBits_def CANPOS_words_def nth_append)
qed

lemma slot_padding_words:
  "(A @ CANPOS_words padding p @ B) ! (length A + 2) =
     word_cat padding (word_cat (numBits p) (offsetBits p) :: 16 word)"
  by (simp add: CANPOS_words_def nth_append)

lemma padding_kept:
  "(ucast (drop_bit 16 (word_cat (padding :: 16 word) (x :: 16 word) :: 32 word)) :: 16 word) = padding"
  by (rule bit_word_eqI) (auto simp: bit_simps)

lemma update_slot_words:
  "(A @ CANPOS_words padding p @ B)[length A := y0, length A + 1 := y1, length A + 2 := y2]
     = A @ [y0, y1, y2] @ B"
  by (simp add: CANPOS_words_def list_update_append)

lemma freeItem_scan_layout_items:
  "freeItem_scan ps = Some k \<Longrightarrow>
     freeItem_scan_layout (A @ items_words pad j ps @ R) (length A) = Some (length A + 3 * k)"
proof (induction ps arbitrary: A j k)
  case Nil
  then show ?case by simp
next
  case (Cons p ps)
  let ?mem = "A @ items_words pad j (p # ps) @ R"
  have mem: "?mem = A @ CANPOS_words (pad j) p @ (items_words pad (Suc j) ps @ R)"
    by simp
  have nb: "slot_numBits ?mem (length A) = numBits p"
    unfolding mem by (rule slot_numBits_words)
  have len: "\<not> length ?mem \<le> length A + 2"
    by (simp add: CANPOS_words_def)
  show ?case
  proof (cases "0 < sint (numBits p)")
    case False
    with Cons.prems have "k = 0" by simp
    with False nb len show ?thesis
      by (subst freeItem_scan_layout.simps) simp
  next
    case True
    with Cons.prems obtain k' where k': "freeItem_scan ps = Some k'" "k = Suc k'"
      by auto
    have mem': "?mem = (A @ CANPOS_words (pad j) p) @ items_words pad (Suc j) ps @ R"
      by simp
    have l3: "length (A @ CANPOS_words (pad j) p) = length A + 3"
      by (simp add: CANPOS_words_def)
    have "freeItem_scan_layout ?mem (length A) = freeItem_scan_layout ?mem (length A + 3)"
      using True nb len by (subst freeItem_scan_layout.simps) simp
    also have "\<dots> = Some (length A + 3 + 3 * k')"
      using Cons.IH [OF k'(1), of "A @ CANPOS_words (pad j) p" "Suc j"]
      unfolding l3 mem' [symmetric] .
    finally show ?thesis
      using k'(2) by simp
  qed
qed


lemma map_words_update_canId:
  assumes "map_shape t" "e < length t"
  shows "(map_words pad 0 t)[e * CANIDMAP_WORDS := c] = map_words pad 0 (t[e := (t ! e)\<lparr>canId := c\<rparr>])"
proof -
  let ?P = "map_words pad 0 (take e t)"
  let ?R = "items_words (pad e) 0 (items (t ! e)) @ map_words pad (Suc e) (drop (Suc e) t)"
  have len: "length ?P = e * CANIDMAP_WORDS"
    by (rule length_map_words_take [OF assms])
  have "(map_words pad 0 t)[e * CANIDMAP_WORDS := c] = (?P @ canId (t ! e) # ?R)[length ?P := c]"
    unfolding len by (subst map_words_split [OF assms(2)]) simp
  also have "\<dots> = ?P @ c # ?R"
    by (simp add: list_update_append)
  also have "\<dots> = map_words pad 0 (t[e := (t ! e)\<lparr>canId := c\<rparr>])"
    by (simp add: map_words_update [OF assms(2)])
  finally show ?thesis .
qed

lemma Add_item_layout_refines:
  assumes sh: "map_shape t" and e: "e < length t"
    and r: "Add_item t e param ob len g off = Returned r t'"
  shows "Add_item_layout (map_words pad 0 t) e param ob len g off = Stored r (map_words pad 0 t')"
proof -
  let ?ps = "items (t ! e)"
  let ?mem = "map_words pad 0 t"
  from r obtain k where k: "freeItem_scan ?ps = Some k"
    by (auto simp: Add_item_def split: option.splits)
  from freeItem_scan_Some [OF k] have kl: "k < length ?ps"
    by simp
  let ?P = "map_words pad 0 (take e t) @ [canId (t ! e)]"
  let ?Q = "map_words pad (Suc e) (drop (Suc e) t)"
  let ?A = "?P @ items_words (pad e) 0 (take k ?ps)"
  let ?B = "items_words (pad e) (Suc k) (drop (Suc k) ?ps) @ ?Q"
  have lenP: "length ?P = e * CANIDMAP_WORDS + 1"
    by (simp add: length_map_words_take [OF sh e])
  have lenA: "length ?A = length ?P + 3 * k"
    using kl by (simp add: length_items_words)
  have mem1: "?mem = ?P @ items_words (pad e) 0 ?ps @ ?Q"
    by (subst map_words_split [OF e]) simp
  have mem2: "?mem = ?A @ CANPOS_words (pad e k) (?ps ! k) @ ?B"
    by (subst map_words_split [OF e], subst items_words_split [OF kl]) simp
  have scan: "freeItem_scan_layout ?mem (e * CANIDMAP_WORDS + 1) = Some (length ?A)"
    unfolding lenA lenP [symmetric]
    by (subst mem1) (rule freeItem_scan_layout_items [OF k])
  have nb: "slot_numBits ?mem (length ?A) = numBits (?ps ! k)"
    by (subst mem2) (rule slot_numBits_words)
  show ?thesis
  proof (cases "sint (numBits (?ps ! k)) = NUMBITS_LASTMARKER")
    case True
    with r k have "r = CAN_ERR_MAXITEMS" "t' = t"
      by (simp_all add: Add_item_def)
    with True scan nb show ?thesis
      by (simp add: Add_item_layout_def)
  next
    case False
    let ?nf = "new_field param ob len g off :: (32 word) CANPOS"
    have nf: "(?ps ! k)\<lparr>mapParam := word_of_int param, offset := off, gain := g,
        offsetBits := word_of_int ob, numBits := word_of_int len\<rparr> = ?nf"
      by (simp add: new_field_def)
    from r k False have t': "t' = t[e := (t ! e)\<lparr>items := ?ps[k := ?nf]\<rparr>]"
      and rr: "r = int (length (forEachCanMap t'))"
      by (auto simp: Add_item_def Let_def nf)
    have sh': "map_shape t'"
      by (rule Add_item_shape [OF sh e r])
    have old: "?mem ! (length ?A + 2) =
        word_cat (pad e k) (word_cat (numBits (?ps ! k)) (offsetBits (?ps ! k)) :: 16 word)"
      by (subst mem2) (rule slot_padding_words)
    have w: "[word_cat off (word_of_int param :: 16 word), g,
         word_cat (ucast (drop_bit 16 (?mem ! (length ?A + 2))) :: 16 word)
           (word_cat (word_of_int len :: 8 word) (word_of_int ob :: 8 word) :: 16 word)]
        = CANPOS_words (pad e k) ?nf"
      unfolding old padding_kept by (simp add: CANPOS_words_def new_field_def)
    have "?mem[length ?A := word_cat off (word_of_int param :: 16 word),
          length ?A + 1 := g,
          length ?A + 2 := word_cat (ucast (drop_bit 16 (?mem ! (length ?A + 2))) :: 16 word)
             (word_cat (word_of_int len :: 8 word) (word_of_int ob :: 8 word) :: 16 word)]
        = ?A @ CANPOS_words (pad e k) ?nf @ ?B"
      (is "?upd = _")
    proof -
      have "?upd = (?A @ CANPOS_words (pad e k) (?ps ! k) @ ?B)
          [length ?A := word_cat off (word_of_int param :: 16 word),
           length ?A + 1 := g,
           length ?A + 2 := word_cat (ucast (drop_bit 16 (?mem ! (length ?A + 2))) :: 16 word)
             (word_cat (word_of_int len :: 8 word) (word_of_int ob :: 8 word) :: 16 word)]"
        using mem2 by (rule arg_cong [where f = "\<lambda>m. m[_ := _, _ := _, _ := _]"])
      also have "\<dots> = ?A @ [word_cat off (word_of_int param :: 16 word), g,
           word_cat (ucast (drop_bit 16 (?mem ! (length ?A + 2))) :: 16 word)
             (word_cat (word_of_int len :: 8 word) (word_of_int ob :: 8 word) :: 16 word)] @ ?B"
        by (rule update_slot_words)
      finally show ?thesis
        by (simp only: w)
    qed
    also have "\<dots> = map_words pad 0 t'"
      unfolding t' using kl
      by (simp add: map_words_update [OF e] items_words_update)
    finally have upd: "?mem[length ?A := word_cat off (word_of_int param :: 16 word),
          length ?A + 1 := g,
          length ?A + 2 := word_cat (ucast (drop_bit 16 (?mem ! (length ?A + 2))) :: 16 word)
             (word_cat (word_of_int len :: 8 word) (word_of_int ob :: 8 word) :: 16 word)]
        = map_words pad 0 t'" .
    have img: "map_of_words (map_words pad 0 t') = t'"
      using map_of_words_map_words(1) [OF sh', of pad "[]"] by simp
    from False have "(sint (numBits (?ps ! k)) = NUMBITS_LASTMARKER) = False"
      by simp
    then show ?thesis
      by (simp only: Add_item_layout_def scan option.case nb if_False Let_def upd img rr)
  qed
qed

lemma Add_layout_refines:
  assumes sh: "map_shape t" and r: "Add t param canId' ob len g off = Returned r t'"
  shows "Add_layout (map_words pad 0 t) param canId' ob len g off = Stored r (map_words pad 0 t')"
proof -
  have img: "map_of_words (map_words pad 0 t) = t"
    using map_of_words_map_words(1) [OF sh, of pad "[]"] by simp
  show ?thesis
  proof (cases "canId' > 0x1fffffff \<or> sint off > 63 \<or> len > 32")
    case True
    with r show ?thesis
      by (auto simp: Add_def Add_layout_def)
  next
    case valid: False
    show ?thesis
    proof (cases "FindById t (word_of_int canId')")
      case (Some e)
      with r valid have "Add_item t e param ob len g off = Returned r t'"
        by (simp add: Add_def)
      from Add_item_layout_refines [OF sh _ this, of pad] FindById_Some [OF Some] Some valid
      show ?thesis
        by (simp add: Add_layout_def img)
    next
      case None
      show ?thesis
      proof (cases "FindById t CANID_UNSET")
        case none: None
        with None r valid have "r = CAN_ERR_MAXMESSAGES" "t' = t"
          by (simp_all add: Add_def)
        with None none valid show ?thesis
          by (simp add: Add_layout_def img)
      next
        case (Some e)
        let ?t1 = "t[e := (t ! e)\<lparr>canId := word_of_int canId'\<rparr>]"
        from FindById_Some [OF Some] have e: "e < length t"
          by simp
        have sh1: "map_shape ?t1"
          using sh e by (intro map_shape_update) (simp_all add: map_shape_nth)
        from r valid None Some have "Add_item ?t1 e param ob len g off = Returned r t'"
          by (simp add: Add_def)
        from Add_item_layout_refines [OF sh1 _ this, of pad] e
        have "Add_item_layout (map_words pad 0 ?t1) e param ob len g off =
            Stored r (map_words pad 0 t')"
          by simp
        with None Some valid show ?thesis
          by (simp add: Add_layout_def img map_words_update_canId [OF sh e])
      qed
    qed
  qed
qed

section \<open>Add and the bit offset\<close>

text \<open>
  The range check of \<open>Add\<close> reads \<^verbatim>\<open>offset\<close>, the additive translation of the field, and never
  \<^verbatim>\<open>offsetBits\<close>: whether \<open>Add\<close> answers \<open>CAN_ERR_INVALID_OFS\<close> depends on the translation alone.
\<close>

lemma Add_INVALID_OFS_iff:
  assumes "canId' \<le> 0x1fffffff"
  shows "(\<exists>t. Add canMap param canId' ob len g off = Returned CAN_ERR_INVALID_OFS t)
           \<longleftrightarrow> 63 < sint off"
proof
  assume "63 < sint off"
  with assms show "\<exists>t. Add canMap param canId' ob len g off = Returned CAN_ERR_INVALID_OFS t"
    by (simp add: Add_def)
next
  assume "\<exists>t. Add canMap param canId' ob len g off = Returned CAN_ERR_INVALID_OFS t"
  then obtain t where t: "Add canMap param canId' ob len g off = Returned CAN_ERR_INVALID_OFS t" ..
  show "63 < sint off"
  proof (rule ccontr)
    assume "\<not> 63 < sint off"
    with t assms show False
      by (auto simp: Add_def CAN_ERR_INVALID_OFS_def CAN_ERR_INVALID_LEN_def
          CAN_ERR_MAXMESSAGES_def CAN_ERR_MAXITEMS_def
          split: if_splits option.splits dest!: Add_item_result)
  qed
qed

lemma Add_translation_64_rejected:
  "Add (ClearMap zero_map) 1 0x123 0 8 0 64 = Returned CAN_ERR_INVALID_OFS (ClearMap zero_map)"
  by code_simp

text \<open>
  Claim C1: every \<open>Add\<close> with \<open>offsetBits = 64\<close> and otherwise valid arguments fails with
  InvalidOffset. The code does not: on a cleared table, \<open>Add\<close> with identifier \<open>0x123\<close>, bit
  offset 64, width 8 and translation 0 succeeds, returns 1 active message and stores the bit
  offset 64 in the first field slot of the first message.
\<close>

theorem Add_accepts_offsetBits_64:
  "(case Add (ClearMap zero_map) 1 0x123 64 8 0 0 of
      Returned r t \<Rightarrow> r = 1 \<and> offsetBits (items (t ! 0) ! 0) = 64 \<and> numBits (items (t ! 0) ! 0) = 8
    | Overrun \<Rightarrow> False)"
  by code_simp

section \<open>Add on a message whose field array is full\<close>

text \<open>
  When every slot of the selected message is active, the scan for a free slot does not stop
  inside the array: nothing writes the \<open>NUMBITS_LASTMARKER\<close> that the check after the scan
  looks for, and the array has no slot beyond \<open>MAX_ITEMS_PER_MESSAGE\<close>.
\<close>

lemma Add_full_message_Overrun:
  assumes "canId' \<le> 0x1fffffff" "sint off \<le> 63" "len \<le> 32"
    and "FindById canMap (word_of_int canId') = Some e"
    and "\<forall>p\<in>set (items (canMap ! e)). 0 < sint (numBits p)"
  shows "Add canMap param canId' ob len g off = Overrun"
  using assms by (simp add: Add_def Add_item_def freeItem_scan_None [THEN iffD2])

lemma full_message_map_reachable:
  "fold (\<lambda>k out. case out of Returned r t \<Rightarrow> Add t 1 0x123 0 8 0 0 | Overrun \<Rightarrow> Overrun)
     [0..<10] (Returned 0 (ClearMap zero_map)) = Returned 1 full_message_map"
  by code_simp

text \<open>
  Claim C2: a further \<open>Add\<close> to a message that already holds \<open>MAX_ITEMS_PER_MESSAGE\<close> active
  fields fails with MaxItems, the scan ending inside the field array. The code does not: on
  the table reached by ten \<open>Add\<close> calls for identifier \<open>0x123\<close>, the eleventh runs past the
  array instead of returning \<open>CAN_ERR_MAXITEMS\<close>.
\<close>

theorem Add_to_full_message_overruns:
  "Add full_message_map 2 0x123 8 8 0 0 = Overrun
   \<and> Add full_message_map 2 0x123 8 8 0 0 \<noteq> Returned CAN_ERR_MAXITEMS full_message_map"
  by code_simp

section \<open>Transmit queue\<close>

lemma ucast_len_roundtrip: "(ucast (ucast (l :: 8 word) :: 32 word) :: 8 word) = l"
  by (rule bit_word_eqI) (auto simp: bit_simps)

lemma buffer_frame_entry:
  "buffer_frame \<lparr>buf_id = i, buf_len = ucast l, buf_data = d\<rparr> =
     \<lparr>frame_id = i, frame_ext = (0x7FF < i), frame_rtr = False, frame_len = (l :: 8 word),
      frame_data = d\<rparr>"
  by (simp add: buffer_frame_def ucast_len_roundtrip)

lemma can_transmit_TMEIE: "can_transmit f h = (a, h') \<Longrightarrow> TMEIE h' = TMEIE h"
  by (auto simp: can_transmit_def split: list.splits)

lemma Send_queue_ok: "queue_ok c \<Longrightarrow> queue_ok (Send i d l c)"
  by (auto simp: queue_ok_def Send_def Let_def split: prod.splits)

lemma Send_taken:
  assumes "accepts (canDev c) = True # rest"
  shows "wire (canDev (Send i d l c)) = wire (canDev c) @
           [\<lparr>frame_id = i, frame_ext = (0x7FF < i), frame_rtr = False, frame_len = l,
             frame_data = d\<rparr>]"
    and "queued (Send i d l c) = queued c"
    and "accepts (canDev (Send i d l c)) = rest"
  using assms
  by (auto simp: Send_def Let_def can_transmit_def queued_def split: prod.splits list.splits)

lemma Send_rejected:
  assumes "queue_ok c" "accepts (canDev c) = [] \<or> (\<exists>rest. accepts (canDev c) = False # rest)"
  shows "wire (canDev (Send i d l c)) = wire (canDev c)"
    and "queued (Send i d l c) =
           (if sendCnt c < SENDBUFFER_LEN
            then queued c @ [\<lparr>frame_id = i, frame_ext = (0x7FF < i), frame_rtr = False,
                               frame_len = l, frame_data = d\<rparr>]
            else queued c)"
  using assms
  by (auto simp: Send_def Let_def can_transmit_def queued_def queue_ok_def
      take_Suc_conv_app_nth buffer_frame_entry split: prod.splits list.splits)

lemma Send_TMEIE: "TMEIE (canDev (Send i d l c)) = (0 < sendCnt (Send i d l c))"
  by (auto simp: Send_def Let_def split: prod.splits dest: can_transmit_TMEIE)

lemma queued_Nil_iff: "queue_ok c \<Longrightarrow> queued c = [] \<longleftrightarrow> sendCnt c = 0"
  by (auto simp: queued_def queue_ok_def SENDBUFFER_LEN_def)

lemma accepted_run_le: "accepted_run n as \<le> n"
  unfolding accepted_run_def
  by (metis length_takeWhile_le length_take min.cobounded2 order_trans)

text \<open>
  The loop of \<open>HandleTx\<close> hands over the top entries, top first, for as long as the hardware
  takes them.
\<close>

lemma HandleTx_loop_drain:
  assumes "n \<le> length b"
  shows "HandleTx_loop b n h = (n', h') \<Longrightarrow>
     n' = n - accepted_run n (accepts h) \<and>
     wire h' = wire h @ take (accepted_run n (accepts h)) (rev (map buffer_frame (take n b))) \<and>
     TMEIE h' = TMEIE h"
  using assms
proof (induction b n h arbitrary: n' h' rule: HandleTx_loop.induct)
  case (1 b h)
  then show ?case by (simp add: accepted_run_def)
next
  case (2 b n h)
  show ?case
  proof (cases "accepts h")
    case Nil
    with 2 show ?thesis by (simp add: can_transmit_def accepted_run_def)
  next
    case (Cons a rest)
    show ?thesis
    proof (cases a)
      case False
      with Cons 2 show ?thesis by (auto simp add: can_transmit_def accepted_run_def)
    next
      case True
      let ?h1 = "h\<lparr>accepts := rest, wire := wire h @ [buffer_frame (b ! n)]\<rparr>"
      from True Cons have ct: "can_transmit (buffer_frame (b ! n)) h = (True, ?h1)"
        by (simp add: can_transmit_def)
      with "2.prems" have rec: "HandleTx_loop b n ?h1 = (n', h')" by simp
      from "2.prems" have nb: "n \<le> length b" "n < length b" by simp_all
      from "2.IH" [OF ct [symmetric] refl rec nb(1)]
      have ih: "n' = n - accepted_run n rest"
        "wire h' = (wire h @ [buffer_frame (b ! n)]) @
           take (accepted_run n rest) (rev (map buffer_frame (take n b)))"
        "TMEIE h' = TMEIE h" by simp_all
      have ar: "accepted_run (Suc n) (accepts h) = Suc (accepted_run n rest)"
        using True Cons by (simp add: accepted_run_def)
      show ?thesis using ih ar accepted_run_le [of n rest] nb
        by (simp add: take_Suc_conv_app_nth)
    qed
  qed
qed

lemma HandleTx_drain:
  assumes "queue_ok c"
  defines "k \<equiv> accepted_run (sendCnt c) (accepts (canDev c))"
  shows "queue_ok (HandleTx c)"
    and "wire (canDev (HandleTx c)) = wire (canDev c) @ take k (rev (queued c))"
    and "queued (HandleTx c) = take (sendCnt c - k) (queued c)"
    and "TMEIE (canDev (HandleTx c)) = (if queued (HandleTx c) = [] then False else TMEIE (canDev c))"
proof -
  obtain n' h' where loop: "HandleTx_loop (sendBuffer c) (sendCnt c) (canDev c) = (n', h')"
    by (cases "HandleTx_loop (sendBuffer c) (sendCnt c) (canDev c)")
  from assms(1) have le: "sendCnt c \<le> length (sendBuffer c)"
    by (simp add: queue_ok_def)
  from HandleTx_loop_drain [OF le loop]
  have n': "n' = sendCnt c - k"
    and w: "wire h' = wire (canDev c) @ take k (rev (queued c))"
    and t: "TMEIE h' = TMEIE (canDev c)"
    by (simp_all add: k_def queued_def)
  have c': "HandleTx c = c\<lparr>sendCnt := n', canDev := (if n' = 0 then h'\<lparr>TMEIE := False\<rparr> else h')\<rparr>"
    by (simp add: HandleTx_def loop)
  show ok: "queue_ok (HandleTx c)"
    using assms(1) by (auto simp add: c' n' queue_ok_def)
  show "wire (canDev (HandleTx c)) = wire (canDev c) @ take k (rev (queued c))"
    by (simp add: c' w)
  show q: "queued (HandleTx c) = take (sendCnt c - k) (queued c)"
    by (simp add: c' n' queued_def take_map min_def)
  show "TMEIE (canDev (HandleTx c)) = (if queued (HandleTx c) = [] then False else TMEIE (canDev c))"
    using queued_Nil_iff [OF ok] by (simp add: c' t)
qed

text \<open>
  Claim C7: \<open>Send\<close> offers the frame to the hardware at once; a rejected frame is pushed on the
  pending queue when the queue has room and is dropped otherwise. \<open>HandleTx\<close> offers and pops
  the top frame again and again, stops at the first rejection, and disables the
  transmit-complete interrupt exactly when the queue has become empty; the queued frames
  leave last in, first out. Here \<open>queued\<close> is the queue with the bottom of the stack first,
  \<open>wire\<close> the frames the hardware took, and \<open>accepted_run\<close> the number of attempts accepted
  before the first rejection.
\<close>

theorem transmit_queue_LIFO:
  assumes "queue_ok c"
  shows
    "(let f = \<lparr>frame_id = i, frame_ext = (0x7FF < i), frame_rtr = False, frame_len = l,
               frame_data = d\<rparr>;
          c' = Send i d l c
      in queue_ok c' \<and>
         (case accepts (canDev c) of
            True # rest \<Rightarrow> wire (canDev c') = wire (canDev c) @ [f] \<and> queued c' = queued c
          | _ \<Rightarrow> wire (canDev c') = wire (canDev c) \<and>
                 queued c' = (if sendCnt c < SENDBUFFER_LEN then queued c @ [f] else queued c)) \<and>
         TMEIE (canDev c') = (queued c' \<noteq> []))
     \<and>
     (let k = accepted_run (sendCnt c) (accepts (canDev c));
          c' = HandleTx c
      in queue_ok c' \<and>
         wire (canDev c') = wire (canDev c) @ take k (rev (queued c)) \<and>
         queued c' = take (sendCnt c - k) (queued c) \<and>
         TMEIE (canDev c') = (if queued c' = [] then False else TMEIE (canDev c)))"
proof -
  let ?f = "\<lparr>frame_id = i, frame_ext = (0x7FF < i), frame_rtr = False, frame_len = l,
             frame_data = d\<rparr>"
  have ok': "queue_ok (Send i d l c)"
    by (rule Send_queue_ok [OF assms])
  have tm: "TMEIE (canDev (Send i d l c)) = (queued (Send i d l c) \<noteq> [])"
    using queued_Nil_iff [OF ok'] by (simp add: Send_TMEIE)
  have cases: "(case accepts (canDev c) of
            True # rest \<Rightarrow> wire (canDev (Send i d l c)) = wire (canDev c) @ [?f] \<and>
                            queued (Send i d l c) = queued c
          | _ \<Rightarrow> wire (canDev (Send i d l c)) = wire (canDev c) \<and>
                 queued (Send i d l c) =
                   (if sendCnt c < SENDBUFFER_LEN then queued c @ [?f] else queued c))"
  proof (cases "accepts (canDev c)")
    case Nil
    with Send_rejected [OF assms, of i d l] show ?thesis by simp
  next
    case (Cons a rest)
    show ?thesis
    proof (cases a)
      case True
      with Cons Send_taken [of c rest i d l] show ?thesis by simp
    next
      case False
      with Cons Send_rejected [OF assms, of i d l] show ?thesis by simp
    qed
  qed
  from ok' tm cases HandleTx_drain [OF assms] show ?thesis
    by (simp add: Let_def)
qed

text \<open>
  The hardware rejects two \<open>Send\<close> calls and accepts afterwards: both frames are queued, and
  \<open>HandleTx\<close> hands over the second one first and leaves the queue empty, the interrupt
  disabled.
\<close>

theorem transmit_queue_LIFO_witness:
  "queue_ok two_queued \<and>
   queued two_queued =
     [\<lparr>frame_id = 0x101, frame_ext = False, frame_rtr = False, frame_len = 8, frame_data = (1, 0)\<rparr>,
      \<lparr>frame_id = 0x102, frame_ext = False, frame_rtr = False, frame_len = 8, frame_data = (2, 0)\<rparr>] \<and>
   wire (canDev (HandleTx two_queued)) =
     [\<lparr>frame_id = 0x102, frame_ext = False, frame_rtr = False, frame_len = 8, frame_data = (2, 0)\<rparr>,
      \<lparr>frame_id = 0x101, frame_ext = False, frame_rtr = False, frame_len = 8, frame_data = (1, 0)\<rparr>] \<and>
   queued (HandleTx two_queued) = [] \<and>
   \<not> TMEIE (canDev (HandleTx two_queued))"
proof -
  have ok: "queue_ok two_queued"
    by code_simp
  have q: "queued two_queued =
     [\<lparr>frame_id = 0x101, frame_ext = False, frame_rtr = False, frame_len = 8, frame_data = (1, 0)\<rparr>,
      \<lparr>frame_id = 0x102, frame_ext = False, frame_rtr = False, frame_len = 8, frame_data = (2, 0)\<rparr>]"
    by code_simp
  have k: "accepted_run 2 (accepts (canDev two_queued)) = 2"
    by code_simp
  have n: "sendCnt two_queued = 2"
    by code_simp
  have w: "wire (canDev two_queued) = []"
    by code_simp
  from transmit_queue_LIFO [OF ok, of 0 0 "(0, 0)"] show ?thesis
    using ok by (simp add: Let_def q k n w)
qed

section \<open>Add: the message it selects and the count it returns\<close>

lemma active_count_packed:
  "packed active_msg t \<Longrightarrow> active_count t = length (forEachCanMap t)"
  by (simp add: active_count_def packed_filter forEachCanMap_active)

lemma distinct_filter_nth:
  assumes "distinct (filter Q xs)" "i < length xs" "j < length xs" "xs ! i = xs ! j" "Q (xs ! i)"
  shows "i = j"
  using assms
proof (induction xs arbitrary: i j)
  case Nil
  then show ?case by simp
next
  case (Cons x xs)
  show ?case
  proof (cases i; cases j)
    fix i' j' assume ij: "i = Suc i'" "j = Suc j'"
    with Cons.prems have "i' = j'"
      by (intro Cons.IH) (auto split: if_splits)
    with ij show ?thesis by simp
  next
    fix j' assume ij: "i = 0" "j = Suc j'"
    with Cons.prems have "Q x" "x = xs ! j'" "j' < length xs" by simp_all
    with Cons.prems(1) show ?thesis by (auto dest: nth_mem)
  next
    fix i' assume ij: "i = Suc i'" "j = 0"
    with Cons.prems have "Q x" "x = xs ! i'" "i' < length xs" by simp_all
    with Cons.prems(1) show ?thesis by (auto dest: nth_mem)
  qed simp
qed

lemma map_inv_unique:
  assumes "map_inv t" "i < length t" "j < length t" "canId (t ! i) = canId (t ! j)"
    "canId (t ! i) \<noteq> CANID_UNSET"
  shows "i = j"
  using assms
  by (intro distinct_filter_nth [where xs = "map canId t" and Q = "\<lambda>c. c \<noteq> CANID_UNSET"])
    (simp_all add: map_inv_def)

lemma new_field_update:
  "(p :: 'g CANPOS)\<lparr>mapParam := word_of_int param, offset := off, gain := g,
      offsetBits := word_of_int ob, numBits := word_of_int len\<rparr> = new_field param ob len g off"
  by (simp add: new_field_def)

lemma Add_item_success:
  assumes "freeItem_scan (items (t ! e)) = Some k"
    "sint (numBits (items (t ! e) ! k)) \<noteq> NUMBITS_LASTMARKER"
  shows "Add_item t e param ob len g off =
     Returned (int (length (forEachCanMap (t[e := (t ! e)\<lparr>items := (items (t ! e))[k := new_field param ob len g off]\<rparr>]))))
       (t[e := (t ! e)\<lparr>items := (items (t ! e))[k := new_field param ob len g off]\<rparr>])"
  using assms by (simp add: Add_item_def Let_def new_field_update)

lemma forEachCanMap_items_update:
  "e < length t \<Longrightarrow> length (forEachCanMap (t[e := (t ! e)\<lparr>items := is\<rparr>])) = length (forEachCanMap t)"
proof -
  assume "e < length t"
  then have "map active_msg (t[e := (t ! e)\<lparr>items := is\<rparr>]) = map active_msg t"
    by (simp add: map_update list_update_same_conv active_msg_def)
  then show ?thesis
    by (simp add: forEachCanMap_active length_takeWhile_map [where P = active_msg])
qed

lemma Add_existing:
  assumes "map_inv t" "canId' \<le> 0x1fffffff" "sint off \<le> 63" "len \<le> 32"
    and "word_of_int canId' \<noteq> CANID_UNSET"
    and "e < length t" "canId (t ! e) = word_of_int canId'"
    and "freeItem_scan (items (t ! e)) = Some k"
    and "sint (numBits (items (t ! e) ! k)) \<noteq> NUMBITS_LASTMARKER"
  shows "Add t param canId' ob len g off =
     Returned (int (active_count t))
       (t[e := (t ! e)\<lparr>items := (items (t ! e))[k := new_field param ob len g off]\<rparr>])"
proof -
  from assms(6,7) have "FindById t (word_of_int canId') \<noteq> None"
    by (auto simp: FindById_None dest: nth_mem)
  then obtain e' where e': "FindById t (word_of_int canId') = Some e'" by auto
  from FindById_Some [OF e'] assms(1,5,6,7) have "e' = e"
    by (intro map_inv_unique [of t]) simp_all
  with e' assms show ?thesis
    by (simp add: Add_def Add_item_success forEachCanMap_items_update active_count_packed map_inv_def)
qed

lemma active_count_less:
  assumes "packed active_msg t" "active_count t < length t"
  shows "FindById t CANID_UNSET = Some (active_count t)"
proof -
  from assms have "length (takeWhile active_msg t) < length t"
    by (simp add: active_count_packed forEachCanMap_active)
  then have "\<exists>m\<in>set t. \<not> active_msg m"
    using nth_length_takeWhile [of active_msg t] nth_mem by blast
  then have "FindById t CANID_UNSET \<noteq> None"
    by (auto simp: FindById_None active_msg_def)
  then obtain e where e: "FindById t CANID_UNSET = Some e" by auto
  from FindById_UNSET_first [OF e] assms(1) e show ?thesis
    by (simp add: active_count_packed forEachCanMap_active)
qed

lemma Add_new:
  assumes "map_inv t" "canId' \<le> 0x1fffffff" "sint off \<le> 63" "len \<le> 32"
    and "word_of_int canId' \<noteq> CANID_UNSET"
    and "\<forall>m\<in>set t. canId m \<noteq> word_of_int canId'" "active_count t < length t"
    and "freeItem_scan (items (t ! active_count t)) = Some k"
    and "sint (numBits (items (t ! active_count t) ! k)) \<noteq> NUMBITS_LASTMARKER"
  shows "canId (t ! active_count t) = CANID_UNSET"
    and "Add t param canId' ob len g off =
     Returned (int (active_count t) + 1)
       (t[active_count t := \<lparr>canId = word_of_int canId',
            items = (items (t ! active_count t))[k := new_field param ob len g off]\<rparr>])"
proof -
  let ?e = "active_count t"
  let ?t1 = "t[?e := (t ! ?e)\<lparr>canId := word_of_int canId'\<rparr>]"
  from assms(1) have pk: "packed active_msg t" by (simp add: map_inv_def)
  have none: "FindById t (word_of_int canId') = None"
    using assms(6) by (simp add: FindById_None)
  have e: "FindById t CANID_UNSET = Some ?e"
    by (rule active_count_less [OF pk assms(7)])
  from FindById_Some [OF e] show "canId (t ! ?e) = CANID_UNSET" by simp
  have scan: "freeItem_scan (items (?t1 ! ?e)) = Some k"
    "sint (numBits (items (?t1 ! ?e) ! k)) \<noteq> NUMBITS_LASTMARKER"
    using assms(7,8,9) by simp_all
  have upd: "?t1[?e := (?t1 ! ?e)\<lparr>items := (items (?t1 ! ?e))[k := new_field param ob len g off]\<rparr>]
      = t[?e := \<lparr>canId = word_of_int canId',
            items = (items (t ! ?e))[k := new_field param ob len g off]\<rparr>]"
    using assms(7) by (simp add: CANIDMAP_update_all)
  have first: "?e = length (takeWhile active_msg t)"
    using pk by (simp add: active_count_packed forEachCanMap_active)
  have "length (takeWhile active_msg ?t1) = Suc ?e"
    using pk first assms(5,7) by (intro takeWhile_update_first) (simp_all add: active_msg_def)
  then have cnt: "length (forEachCanMap (t[?e := \<lparr>canId = word_of_int canId',
            items = (items (t ! ?e))[k := new_field param ob len g off]\<rparr>])) = Suc ?e"
    using forEachCanMap_items_update [of ?e ?t1 "(items (?t1 ! ?e))[k := new_field param ob len g off]"]
      assms(7) by (simp add: forEachCanMap_active CANIDMAP_update_all)
  show "Add t param canId' ob len g off =
     Returned (int ?e + 1)
       (t[?e := \<lparr>canId = word_of_int canId',
            items = (items (t ! ?e))[k := new_field param ob len g off]\<rparr>])"
    using assms(2,3,4) none e Add_item_success [OF scan, of param ob len g off, unfolded upd] cnt
    by (simp add: Add_def)
qed

lemma Add_table_full:
  assumes "map_inv t" "canId' \<le> 0x1fffffff" "sint off \<le> 63" "len \<le> 32"
    and "\<forall>m\<in>set t. canId m \<noteq> word_of_int canId'" "active_count t = length t"
  shows "Add t param canId' ob len g off = Returned CAN_ERR_MAXMESSAGES t"
proof -
  from assms(6) have "\<forall>m\<in>set t. active_msg m"
    unfolding active_count_def by (metis length_filter_less less_irrefl)
  then have "FindById t CANID_UNSET = None"
    by (auto simp: FindById_None active_msg_def)
  moreover have "FindById t (word_of_int canId') = None"
    using assms(5) by (simp add: FindById_None)
  ultimately show ?thesis
    using assms(2,3,4) by (simp add: Add_def)
qed

lemma Add_returns_active_count:
  assumes "map_inv t" "Add t param canId' ob len g off = Returned r t'" "0 \<le> r"
  shows "r = int (active_count t')"
proof -
  from Add_inv [OF assms(1,2)] have pk: "packed active_msg t'" by (simp add: map_inv_def)
  from assms(2,3) obtain t0 e where "Add_item t0 e param ob len g off = Returned r t'"
    by (auto simp: Add_def CAN_ERR_INVALID_ID_def CAN_ERR_INVALID_OFS_def CAN_ERR_INVALID_LEN_def
        CAN_ERR_MAXMESSAGES_def split: if_splits option.splits)
  with assms(3) have "r = int (length (forEachCanMap t'))"
    by (auto simp: Add_item_def Let_def CAN_ERR_MAXITEMS_def split: option.splits if_splits)
  with pk show ?thesis by (simp add: active_count_packed)
qed

lemma freeItem_scan_first_free:
  assumes "k < length ps" "\<not> 0 < sint (numBits (ps ! k))" "\<forall>j<k. 0 < sint (numBits (ps ! j))"
  shows "freeItem_scan ps = Some k"
  using assms
proof (induction ps arbitrary: k)
  case Nil
  then show ?case by simp
next
  case (Cons p ps)
  show ?case
  proof (cases k)
    case 0
    with Cons.prems show ?thesis by simp
  next
    case (Suc k')
    with Cons.prems have "0 < sint (numBits p)"
      by auto
    moreover from Suc Cons.prems have "freeItem_scan ps = Some k'"
      by (intro Cons.IH) auto
    ultimately show ?thesis
      using Suc by simp
  qed
qed

lemma Add_item_marker:
  assumes "freeItem_scan (items (t ! e)) = Some k"
    "sint (numBits (items (t ! e) ! k)) = NUMBITS_LASTMARKER"
  shows "Add_item t e param ob len g off = Returned CAN_ERR_MAXITEMS t"
  using assms by (simp add: Add_item_def)

lemma takeWhile_update_append:
  assumes "packed P xs" "k = length (takeWhile P xs)" "k < length xs" "P v"
  shows "takeWhile P (xs[k := v]) = takeWhile P xs @ [v]"
  using assms
proof (induction xs arbitrary: k)
  case Nil
  then show ?case by simp
next
  case (Cons x xs)
  show ?case
  proof (cases "P x")
    case True
    with Cons.prems obtain k' where k': "k = Suc k'" "k' = length (takeWhile P xs)" "k' < length xs"
      by auto
    from Cons.prems(1) True have "packed P xs"
      by (simp add: packed_Cons)
    from Cons.IH [OF this k'(2,3) Cons.prems(4)] True k'(1) show ?thesis
      by simp
  next
    case False
    with Cons.prems have k: "k = 0" and "list_all (\<lambda>x. \<not> P x) xs"
      by (simp_all add: packed_def)
    then have "takeWhile P xs = []"
      by (cases xs) simp_all
    with k False Cons.prems(4) show ?thesis
      by simp
  qed
qed


text \<open>
  The message that \<open>Add\<close> selects, on a table of the arrays' sizes that satisfies the
  invariant, for an identifier up to \<open>0x1fffffff\<close> that is not the marker of an unused slot, a
  width up to 32 and a translation up to 63. The first free field slot of a message is the
  slot \<open>k\<close> inside the field array whose width is not positive while the widths of all slots
  before it are. If a message has the identifier, \<open>Add\<close> writes the field to its first free
  slot and returns the number of used message slots, which does not change. Otherwise the
  message slot at index \<open>active_count t\<close> is unused and all slots before it are used; \<open>Add\<close>
  gives it the identifier, writes the field to its first free slot and returns the number of
  used message slots, one more than before. In both cases \<open>Add\<close> answers \<open>CAN_ERR_MAXITEMS\<close>
  instead when the first free slot holds the width \<open>-1\<close>. With no message of the identifier
  and all \<open>MAX_MESSAGES\<close> slots used, \<open>Add\<close> answers \<open>CAN_ERR_MAXMESSAGES\<close> and leaves the table
  as it was. Every result that is not negative is the number of used message slots of the
  table that \<open>Add\<close> leaves.
\<close>

lemma Add_selects_message:
  assumes "map_shape t" "map_inv t"
    and "canId' \<le> 0x1fffffff" "sint off \<le> 63" "len \<le> 32"
    and "word_of_int canId' \<noteq> CANID_UNSET"
  shows
    "(\<forall>e k. e < MAX_MESSAGES \<and> canId (t ! e) = word_of_int canId' \<and>
         k < MAX_ITEMS_PER_MESSAGE \<and> (\<forall>j<k. 0 < sint (numBits (items (t ! e) ! j))) \<and>
         \<not> 0 < sint (numBits (items (t ! e) ! k)) \<longrightarrow>
         Add t param canId' ob len g off =
           (if sint (numBits (items (t ! e) ! k)) = NUMBITS_LASTMARKER
            then Returned CAN_ERR_MAXITEMS t
            else Returned (int (active_count t))
              (t[e := (t ! e)\<lparr>items := (items (t ! e))[k := new_field param ob len g off]\<rparr>])))
     \<and>
     ((\<forall>m\<in>set t. canId m \<noteq> word_of_int canId') \<and> active_count t < MAX_MESSAGES \<longrightarrow>
        canId (t ! active_count t) = CANID_UNSET \<and>
        (\<forall>i<active_count t. canId (t ! i) \<noteq> CANID_UNSET) \<and>
        (\<forall>k. k < MAX_ITEMS_PER_MESSAGE \<and>
           (\<forall>j<k. 0 < sint (numBits (items (t ! active_count t) ! j))) \<and>
           \<not> 0 < sint (numBits (items (t ! active_count t) ! k)) \<longrightarrow>
           Add t param canId' ob len g off =
             (if sint (numBits (items (t ! active_count t) ! k)) = NUMBITS_LASTMARKER
              then Returned CAN_ERR_MAXITEMS
                (t[active_count t := (t ! active_count t)\<lparr>canId := word_of_int canId'\<rparr>])
              else Returned (int (active_count t) + 1)
                (t[active_count t := \<lparr>canId = word_of_int canId',
                     items = (items (t ! active_count t))[k := new_field param ob len g off]\<rparr>]))))
     \<and>
     ((\<forall>m\<in>set t. canId m \<noteq> word_of_int canId') \<and> active_count t = MAX_MESSAGES \<longrightarrow>
        Add t param canId' ob len g off = Returned CAN_ERR_MAXMESSAGES t)
     \<and>
     (\<forall>r t'. Add t param canId' ob len g off = Returned r t' \<and> 0 \<le> r \<longrightarrow>
        r = int (active_count t'))"
proof -
  from assms(1) have len: "length t = MAX_MESSAGES"
    by (simp add: map_shape_def)
  from assms(2) have pk: "packed active_msg t"
    by (simp add: map_inv_def)
  have il: "length (items (t ! e)) = MAX_ITEMS_PER_MESSAGE" if "e < MAX_MESSAGES" for e
    using that len by (intro map_shape_nth [OF assms(1)]) simp
  show ?thesis
  proof (intro conjI allI impI)
    fix e k
    assume a: "e < MAX_MESSAGES \<and> canId (t ! e) = word_of_int canId' \<and>
         k < MAX_ITEMS_PER_MESSAGE \<and> (\<forall>j<k. 0 < sint (numBits (items (t ! e) ! j))) \<and>
         \<not> 0 < sint (numBits (items (t ! e) ! k))"
    then have e: "e < length t" "canId (t ! e) = word_of_int canId'"
      using len by simp_all
    from a il [of e] have scan: "freeItem_scan (items (t ! e)) = Some k"
      by (intro freeItem_scan_first_free) simp_all
    show "Add t param canId' ob len g off =
           (if sint (numBits (items (t ! e) ! k)) = NUMBITS_LASTMARKER
            then Returned CAN_ERR_MAXITEMS t
            else Returned (int (active_count t))
              (t[e := (t ! e)\<lparr>items := (items (t ! e))[k := new_field param ob len g off]\<rparr>]))"
    proof (cases "sint (numBits (items (t ! e) ! k)) = NUMBITS_LASTMARKER")
      case False
      with Add_existing [OF assms(2,3,4,5,6) e scan] show ?thesis
        by simp
    next
      case True
      from e have "FindById t (word_of_int canId') \<noteq> None"
        by (auto simp: FindById_None dest: nth_mem)
      then obtain e' where e': "FindById t (word_of_int canId') = Some e'"
        by auto
      from FindById_Some [OF e'] assms(2,6) e have "e' = e"
        by (intro map_inv_unique [of t]) simp_all
      with e' assms(3,4,5) True Add_item_marker [OF scan True] show ?thesis
        by (simp add: Add_def)
    qed
  next
    assume "(\<forall>m\<in>set t. canId m \<noteq> word_of_int canId') \<and> active_count t < MAX_MESSAGES"
    with active_count_less [OF pk] len FindById_Some [of t CANID_UNSET "active_count t"]
    show "canId (t ! active_count t) = CANID_UNSET"
      by simp
  next
    fix i
    assume "(\<forall>m\<in>set t. canId m \<noteq> word_of_int canId') \<and> active_count t < MAX_MESSAGES"
      and "i < active_count t"
    with active_count_less [OF pk] len FindById_Some [of t CANID_UNSET "active_count t"]
    show "canId (t ! i) \<noteq> CANID_UNSET"
      by simp
  next
    fix k
    let ?e = "active_count t"
    let ?t1 = "t[?e := (t ! ?e)\<lparr>canId := word_of_int canId'\<rparr>]"
    assume n: "(\<forall>m\<in>set t. canId m \<noteq> word_of_int canId') \<and> active_count t < MAX_MESSAGES"
      and a: "k < MAX_ITEMS_PER_MESSAGE \<and>
           (\<forall>j<k. 0 < sint (numBits (items (t ! ?e) ! j))) \<and>
           \<not> 0 < sint (numBits (items (t ! ?e) ! k))"
    from n len have e: "?e < length t"
      by simp
    from a n il [of ?e] have scan: "freeItem_scan (items (t ! ?e)) = Some k"
      by (intro freeItem_scan_first_free) simp_all
    show "Add t param canId' ob len g off =
             (if sint (numBits (items (t ! ?e) ! k)) = NUMBITS_LASTMARKER
              then Returned CAN_ERR_MAXITEMS ?t1
              else Returned (int ?e + 1)
                (t[?e := \<lparr>canId = word_of_int canId',
                     items = (items (t ! ?e))[k := new_field param ob len g off]\<rparr>]))"
    proof (cases "sint (numBits (items (t ! ?e) ! k)) = NUMBITS_LASTMARKER")
      case False
      with Add_new(2) [OF assms(2,3,4,5,6) _ e scan] n show ?thesis
        by simp
    next
      case True
      have none: "FindById t (word_of_int canId') = None"
        using n by (simp add: FindById_None)
      have un: "FindById t CANID_UNSET = Some ?e"
        by (rule active_count_less [OF pk e])
      have scan1: "freeItem_scan (items (?t1 ! ?e)) = Some k"
        "sint (numBits (items (?t1 ! ?e) ! k)) = NUMBITS_LASTMARKER"
        using e scan True by simp_all
      from none un assms(3,4,5) True Add_item_marker [OF scan1] show ?thesis
        by (simp add: Add_def)
    qed
  next
    assume "(\<forall>m\<in>set t. canId m \<noteq> word_of_int canId') \<and> active_count t = MAX_MESSAGES"
    with assms len show "Add t param canId' ob len g off = Returned CAN_ERR_MAXMESSAGES t"
      by (intro Add_table_full) simp_all
  next
    fix r t'
    assume "Add t param canId' ob len g off = Returned r t' \<and> 0 \<le> r"
    then have "Add t param canId' ob len g off = Returned r t'" and "0 \<le> r"
      by simp_all
    then show "r = int (active_count t')"
      by (rule Add_returns_active_count [OF assms(2)])
  qed
qed

text \<open>
  With a width from 1 to 32, the field written to the first free slot is appended to the
  active fields of the message.
\<close>

lemma Add_appends_field:
  assumes "map_inv t" "e < length t" "k < length (items (t ! e))"
    and "\<forall>j<k. 0 < sint (numBits (items (t ! e) ! j))" "\<not> 0 < sint (numBits (items (t ! e) ! k))"
    and "0 < len" "len \<le> 32"
  shows "forEachPosMap ((t ! e)\<lparr>items := (items (t ! e))[k := new_field param ob len g off]\<rparr>) =
     forEachPosMap (t ! e) @ [new_field param ob len g off]"
proof -
  from assms(1,2) have pk: "packed active_pos (items (t ! e))"
    by (auto simp: map_inv_def list_all_iff)
  have "freeItem_scan (items (t ! e)) = Some k"
    using assms(3,5,4) by (rule freeItem_scan_first_free)
  then have k: "k = length (takeWhile active_pos (items (t ! e)))"
    by (rule freeItem_scan_first)
  have "sint (word_of_int len :: 8 word) = len"
    using assms(6,7) by (simp add: sint_uint uint_word_of_int signed_take_bit_int_eq_self)
  with assms(6) have act: "active_pos (new_field param ob len g off :: 'a CANPOS)"
    by (simp add: active_pos_def new_field_def)
  from takeWhile_update_append [OF pk k assms(3) act] show ?thesis
    by (simp add: forEachPosMap_active)
qed

text \<open>
  On a table with the single message \<open>0x123\<close>: a second field for \<open>0x123\<close> goes to slot 1 of
  message 0 and the count stays 1; a field for \<open>0x124\<close> opens message slot 1 and the count is
  2. On a table whose ten slots are in use, a new identifier is refused.
\<close>

lemma Add_selects_message_instance:
  "map_shape one_message_map \<and> map_inv one_message_map \<and>
   Add one_message_map 2 0x123 8 8 0 0 =
     Returned 1 (one_message_map[0 := (one_message_map ! 0)
       \<lparr>items := (items (one_message_map ! 0))[1 := new_field 2 8 8 0 0]\<rparr>]) \<and>
   Add one_message_map 2 0x124 8 8 0 0 =
     Returned 2 (one_message_map[1 := \<lparr>canId = 0x124,
       items = (items (one_message_map ! 1))[0 := new_field 2 8 8 0 0]\<rparr>]) \<and>
   map_shape all_messages_map \<and> map_inv all_messages_map \<and>
   Add all_messages_map 2 0x123 8 8 0 0 = Returned CAN_ERR_MAXMESSAGES all_messages_map"
proof -
  have sh: "map_shape one_message_map" and inv: "map_inv one_message_map"
    by code_simp+
  have sh': "map_shape all_messages_map" and inv': "map_inv all_messages_map"
    by code_simp+
  have n: "active_count one_message_map = 1"
    by code_simp
  have first: "0 < sint (numBits (items (one_message_map ! 0) ! 0))"
    by code_simp
  have old: "0 < MAX_MESSAGES \<and> canId (one_message_map ! 0) = word_of_int 0x123 \<and>
      1 < MAX_ITEMS_PER_MESSAGE \<and>
      \<not> 0 < sint (numBits (items (one_message_map ! 0) ! 1)) \<and>
      sint (numBits (items (one_message_map ! 0) ! 1)) \<noteq> NUMBITS_LASTMARKER"
    by code_simp
  have new: "(\<forall>m\<in>set one_message_map. canId m \<noteq> word_of_int 0x124) \<and>
      active_count one_message_map < MAX_MESSAGES"
    by code_simp
  have slot: "0 < MAX_ITEMS_PER_MESSAGE \<and>
      \<not> 0 < sint (numBits (items (one_message_map ! 1) ! 0)) \<and>
      sint (numBits (items (one_message_map ! 1) ! 0)) \<noteq> NUMBITS_LASTMARKER"
    by code_simp
  have full: "(\<forall>m\<in>set all_messages_map. canId m \<noteq> word_of_int 0x123) \<and>
      active_count all_messages_map = MAX_MESSAGES"
    by code_simp
  note T = Add_selects_message [OF sh inv, of "0x123" 0 8 2 8 0]
  note U = Add_selects_message [OF sh inv, of "0x124" 0 8 2 8 0]
  note V = Add_selects_message [OF sh' inv', of "0x123" 0 8 2 8 0]
  have a: "Add one_message_map 2 0x123 8 8 0 0 =
     Returned 1 (one_message_map[0 := (one_message_map ! 0)
       \<lparr>items := (items (one_message_map ! 0))[1 := new_field 2 8 8 0 0]\<rparr>])"
    using T [THEN conjunct1, rule_format, of 0 1] old first n
    by (simp add: CANID_UNSET_def)
  have p: "0 < MAX_ITEMS_PER_MESSAGE \<and>
      (\<forall>j<0. 0 < sint (numBits (items (one_message_map ! active_count one_message_map) ! j))) \<and>
      \<not> 0 < sint (numBits (items (one_message_map ! active_count one_message_map) ! 0))"
    using slot by (simp add: n)
  note U1 = mp [OF U [THEN conjunct2, THEN conjunct1] new]
  note U2 = mp [OF U1 [THEN conjunct2, THEN conjunct2, THEN spec, of 0] p]
  have b: "Add one_message_map 2 0x124 8 8 0 0 =
     Returned 2 (one_message_map[1 := \<lparr>canId = 0x124,
       items = (items (one_message_map ! 1))[0 := new_field 2 8 8 0 0]\<rparr>])"
    using U2 slot by (simp add: n CANID_UNSET_def)
  have c: "Add all_messages_map 2 0x123 8 8 0 0 = Returned CAN_ERR_MAXMESSAGES all_messages_map"
    using V [THEN conjunct2, THEN conjunct2, THEN conjunct1] full
    by (simp add: CANID_UNSET_def)
  from sh inv sh' inv' a b c show ?thesis
    by simp
qed

text \<open>
  Claim C5: every \<open>Add\<close> with a valid identifier, width and bit offset appends the mapping to
  the message that has the identifier, or else to the first unused message slot, and returns
  the number of active messages. The code does not, for calls that the claim admits. On a
  cleared table, \<open>Add\<close> with identifier \<open>0x123\<close>, bit offset 0, width 8 and translation 64
  answers \<open>CAN_ERR_INVALID_OFS\<close> and leaves the table as it was: the range check of \<open>Add\<close> reads
  the translation where the bit offset is meant. And \<open>Add\<close> takes the width \<open>-1\<close>, the
  last-marker of a field array: \<open>Add\<close> with identifier \<open>0x123\<close> and width \<open>-1\<close> on a cleared
  table returns 1 and leaves a table that satisfies the invariant, in which the message
  \<open>0x123\<close> has no active field; a further \<open>Add\<close> for \<open>0x123\<close> with bit offset 8 and width 8
  answers \<open>CAN_ERR_MAXITEMS\<close> and leaves the table as it was.
\<close>

theorem Add_refuses_valid_calls:
  "Add (ClearMap zero_map) 1 0x123 0 8 0 64 = Returned CAN_ERR_INVALID_OFS (ClearMap zero_map) \<and>
   (case Add (ClearMap zero_map) 1 0x123 0 (- 1) 0 0 of
      Returned r t \<Rightarrow>
        r = 1 \<and> map_shape t \<and> map_inv t \<and> canId (t ! 0) = 0x123 \<and> forEachPosMap (t ! 0) = [] \<and>
        Add t 2 0x123 8 8 0 0 = Returned CAN_ERR_MAXITEMS t
    | Overrun \<Rightarrow> False)"
  by code_simp

section \<open>Remove, then FindMap\<close>

lemma Remove_closed:
  assumes "map_shape stack1" "map_shape stack2" "map_shape sendMap" "map_shape recvMap"
  shows "Remove stack1 stack2 sendMap recvMap param =
     ((fst (RemoveFromMap stack1 sendMap param), fst (RemoveFromMap stack2 recvMap param)),
      int (bound_fields param sendMap + bound_fields param recvMap))"
  by (simp add: Remove_def Let_def RemoveFromMap_closed [OF assms(1,3)]
      RemoveFromMap_closed [OF assms(2,4)])

text \<open>
  Claim C6, as far as the code has it. For tables and stack frames of the arrays' sizes:
  after \<open>Remove\<close>, \<open>FindMap\<close> does not find the parameter; \<open>Remove\<close> returns the number of
  active fields bound to the parameter in the two tables; when the parameter is absent it
  returns 0, and it leaves both tables as they were if they are in canonical form; and a
  second \<open>Remove\<close> of the same parameter returns 0 and changes nothing.
\<close>

theorem Remove_then_FindMap:
  assumes "map_shape stack1" "map_shape stack2" "map_shape sendMap" "map_shape recvMap"
  shows
    "(let ((s', r'), n) = Remove stack1 stack2 sendMap recvMap param
      in FindMap s' r' param = None \<and>
         n = int (bound_fields param sendMap + bound_fields param recvMap) \<and>
         (FindMap sendMap recvMap param = None \<longrightarrow>
            n = 0 \<and>
            (map_canonical sendMap \<and> map_canonical recvMap \<longrightarrow> s' = sendMap \<and> r' = recvMap)) \<and>
         (\<forall>st1 st2. map_shape st1 \<and> map_shape st2 \<longrightarrow>
            Remove st1 st2 s' r' param = ((s', r'), 0)))"
proof -
  let ?s = "fst (RemoveFromMap stack1 sendMap param)"
  let ?r = "fst (RemoveFromMap stack2 recvMap param)"
  note s = RemoveFromMap_inv [OF assms(1,3), of param]
  note r = RemoveFromMap_inv [OF assms(2,4), of param]
  have ns: "FindInMsgs param (forEachCanMap ?s) = None"
    by (rule RemoveFromMap_absent_after [OF assms(1,3)])
  have nr: "FindInMsgs param (forEachCanMap ?r) = None"
    by (rule RemoveFromMap_absent_after [OF assms(2,4)])
  have after: "FindMap ?s ?r param = None"
    using ns nr by (simp add: FindMap_None)
  have absent: "FindMap sendMap recvMap param = None \<longrightarrow>
      int (bound_fields param sendMap + bound_fields param recvMap) = 0 \<and>
      (map_canonical sendMap \<and> map_canonical recvMap \<longrightarrow> ?s = sendMap \<and> ?r = recvMap)"
  proof
    assume "FindMap sendMap recvMap param = None"
    then have a: "FindInMsgs param (forEachCanMap sendMap) = None"
      and b: "FindInMsgs param (forEachCanMap recvMap) = None"
      by (simp_all add: FindMap_None)
    from a b have "bound_fields param sendMap = 0" "bound_fields param recvMap = 0"
      by (simp_all add: bound_fields_0)
    with RemoveFromMap_absent(2) [OF assms(1,3) a] RemoveFromMap_absent(2) [OF assms(2,4) b]
    show "int (bound_fields param sendMap + bound_fields param recvMap) = 0 \<and>
      (map_canonical sendMap \<and> map_canonical recvMap \<longrightarrow> ?s = sendMap \<and> ?r = recvMap)"
      by simp
  qed
  have again: "\<forall>st1 st2. map_shape st1 \<and> map_shape st2 \<longrightarrow>
      Remove st1 st2 ?s ?r param = ((?s, ?r), 0)"
  proof (intro allI impI)
    fix st1 st2 :: "'a canmap"
    assume st: "map_shape st1 \<and> map_shape st2"
    then have st1: "map_shape st1" and st2: "map_shape st2" by simp_all
    have z: "bound_fields param ?s = 0" "bound_fields param ?r = 0"
      using ns nr by (simp_all add: bound_fields_0)
    have "fst (RemoveFromMap st1 ?s param) = ?s" "fst (RemoveFromMap st2 ?r param) = ?r"
      using RemoveFromMap_absent(2) [OF st1 s(1) ns s(2)]
        RemoveFromMap_absent(2) [OF st2 r(1) nr r(2)] by simp_all
    then show "Remove st1 st2 ?s ?r param = ((?s, ?r), 0)"
      by (simp add: Remove_closed [OF st1 st2 s(1) r(1)] z)
  qed
  from after absent again show ?thesis
    by (simp add: Remove_closed [OF assms] Let_def)
qed

text \<open>
  On the send table with messages \<open>0x123\<close> (parameters 1 and 2) and \<open>0x124\<close> (parameter 1) and
  the receive table with one field of parameter 1: removing parameter 1 returns 3 and the
  parameter is not found afterwards; removing parameter 7, which is absent, returns 0 and
  changes neither table.
\<close>

theorem Remove_then_FindMap_witness:
  "map_shape zero_map \<and> map_shape two_message_map \<and> map_shape one_message_map \<and>
   snd (Remove zero_map zero_map two_message_map one_message_map 1) = 3 \<and>
   (let (s', r') = fst (Remove zero_map zero_map two_message_map one_message_map 1)
    in FindMap s' r' 1 = None) \<and>
   FindMap two_message_map one_message_map 7 = None \<and>
   map_canonical two_message_map \<and> map_canonical one_message_map \<and>
   Remove zero_map zero_map two_message_map one_message_map 7 =
     ((two_message_map, one_message_map), 0)"
proof -
  have sh: "map_shape zero_map" "map_shape two_message_map" "map_shape one_message_map"
    by code_simp+
  have n: "bound_fields 1 two_message_map = 2" "bound_fields 1 one_message_map = 1"
    by code_simp+
  have absent: "FindMap two_message_map one_message_map 7 = None"
    by code_simp
  have can: "map_canonical two_message_map" "map_canonical one_message_map"
    by code_simp+
  note T1 = Remove_then_FindMap [OF sh(1) sh(1) sh(2) sh(3), of 1]
  note T7 = Remove_then_FindMap [OF sh(1) sh(1) sh(2) sh(3), of 7]
  have a: "snd (Remove zero_map zero_map two_message_map one_message_map 1) = 3"
    using T1 n by (simp add: Let_def split: prod.splits)
  have b: "(let (s', r') = fst (Remove zero_map zero_map two_message_map one_message_map 1)
    in FindMap s' r' 1 = None)"
    using T1 by (simp add: Let_def split: prod.splits)
  have c: "Remove zero_map zero_map two_message_map one_message_map 7 =
     ((two_message_map, one_message_map), 0)"
    using T7 absent can by (simp add: Let_def split: prod.splits)
  from sh a b c absent can show ?thesis
    by simp
qed

text \<open>
  The claim as it is stated fails where a message has no active field. \<open>Add\<close> accepts the
  width 0 and leaves such a message; parameter 7 is absent from the tables; \<open>Remove\<close> of
  parameter 7 returns 0, and the message \<open>0x123\<close> is gone from the send table.
\<close>

theorem Remove_absent_changes_table:
  "Add (ClearMap zero_map) 1 0x123 0 0 0 0 = Returned 1 zero_width_map \<and>
   FindMap zero_width_map (ClearMap zero_map) 7 = None \<and>
   snd (Remove zero_map zero_map zero_width_map (ClearMap zero_map) 7) = 0 \<and>
   fst (fst (Remove zero_map zero_map zero_width_map (ClearMap zero_map) 7)) \<noteq> zero_width_map \<and>
   canId (zero_width_map ! 0) = 0x123 \<and>
   canId (fst (fst (Remove zero_map zero_map zero_width_map (ClearMap zero_map) 7)) ! 0)
     = CANID_UNSET"
  by code_simp

section \<open>Save, then Load\<close>

lemma LoadFromFlash_adopts:
  assumes "flash (nv m) = imgS @ imgR @ [foldl step (foldl step 0xFFFFFFFF imgS) imgR] @ rest"
    and "length imgS = MAP_WORDS" "length imgR = MAP_WORDS"
  shows "fst (LoadFromFlash step NumFromId m) = 1"
    and "canSendMap (snd (LoadFromFlash step NumFromId m)) =
           ReplaceParamUidByEnum NumFromId (map_of_words imgS)"
    and "canRecvMap (snd (LoadFromFlash step NumFromId m)) =
           ReplaceParamUidByEnum NumFromId (map_of_words imgR)"
proof -
  have st: "flash (nv m) ! (MAP_WORDS + MAP_WORDS) = foldl step (foldl step 0xFFFFFFFF imgS) imgR"
    using assms by (simp add: nth_append)
  have tk: "take (MAP_WORDS + MAP_WORDS) (flash (nv m)) = imgS @ imgR"
    "take MAP_WORDS (flash (nv m)) = imgS"
    "take MAP_WORDS (drop MAP_WORDS (flash (nv m))) = imgR"
    using assms by simp_all
  have crc: "crc_calculate_block step (imgS @ imgR) (crc_reset (nv m)) =
      (foldl step (foldl step 0xFFFFFFFF imgS) imgR,
       (crc_reset (nv m))\<lparr>crc_dr := foldl step (foldl step 0xFFFFFFFF imgS) imgR\<rparr>)"
    by (simp add: crc_calculate_block_foldl crc_reset_def)
  show "fst (LoadFromFlash step NumFromId m) = 1"
    and "canSendMap (snd (LoadFromFlash step NumFromId m)) =
           ReplaceParamUidByEnum NumFromId (map_of_words imgS)"
    and "canRecvMap (snd (LoadFromFlash step NumFromId m)) =
           ReplaceParamUidByEnum NumFromId (map_of_words imgR)"
    by (simp_all add: LoadFromFlash_def Let_def st tk crc)
qed





section \<open>The table operations and the invariant\<close>

lemma replace_pos_active: "map active_pos (replace_pos f ps) = map active_pos ps"
  by (induction ps) (auto simp: active_pos_def)

lemma replace_msgs_canId: "map canId (replace_msgs f t) = map canId t"
  by (induction t) auto

lemma replace_msgs_inv: "map_inv (replace_msgs f t) = map_inv t"
proof -
  have act: "map active_msg (replace_msgs f t) = map active_msg t"
    by (induction t) (auto simp: active_msg_def)
  have "list_all (\<lambda>m. packed active_pos (items m)) (replace_msgs f t)
      = list_all (\<lambda>m. packed active_pos (items m)) t"
    by (induction t) (auto simp: packed_cong_map [OF replace_pos_active])
  with packed_cong_map [OF act] show ?thesis
    by (simp add: map_inv_def replace_msgs_canId)
qed

lemma LoadFromFlash_success:
  assumes "LoadFromFlash step NumFromId c = (1, c')"
  shows "canSendMap c' = ReplaceParamUidByEnum NumFromId (map_of_words (take MAP_WORDS (flash (nv c))))"
    and "canRecvMap c' = ReplaceParamUidByEnum NumFromId
           (map_of_words (take MAP_WORDS (drop MAP_WORDS (flash (nv c)))))"
  using assms by (auto simp: LoadFromFlash_def Let_def split: prod.splits if_splits)

text \<open>
  What the operations keep. On a table of the arrays' sizes that satisfies the invariant (no
  used identifier twice, used message slots packed from index 0, active field slots of every
  message packed from index 0), \<open>RemoveFromMap\<close> and \<open>ClearMap\<close> leave such a table, and so
  does \<open>Add\<close> when the scan for a free slot ends inside the field array of the message: these
  are the calls for which \<open>Add\<close> returns in the model of the arrays. A load that adopts the
  stored tables leaves tables that satisfy the invariant when the stored ones do.
\<close>

lemma table_operations_keep_invariant:
  assumes "map_shape t" "map_inv t"
  shows
    "(\<forall>param canId' ob len g off r t'.
        Add t param canId' ob len g off = Returned r t' \<longrightarrow> map_shape t' \<and> map_inv t')
     \<and>
     (\<forall>stack param. map_shape stack \<longrightarrow>
        map_shape (fst (RemoveFromMap stack t param)) \<and>
        map_inv (fst (RemoveFromMap stack t param)))
     \<and>
     map_shape (ClearMap t) \<and> map_inv (ClearMap t)
     \<and>
     (\<forall>step NumFromId c c'.
        LoadFromFlash step NumFromId c = (1, c') \<and>
        map_inv (map_of_words (take MAP_WORDS (flash (nv c)))) \<and>
        map_inv (map_of_words (take MAP_WORDS (drop MAP_WORDS (flash (nv c))))) \<longrightarrow>
        map_inv (canSendMap c') \<and> map_inv (canRecvMap c'))"
proof (intro conjI allI impI)
  fix param canId' ob len g off r t'
  assume a: "Add t param canId' ob len g off = Returned r t'"
  show "map_shape t'" by (rule Add_shape [OF assms(1) a])
  show "map_inv t'" by (rule Add_inv [OF assms(2) a])
next
  fix stack :: "'a canmap" and param
  assume st: "map_shape stack"
  show "map_shape (fst (RemoveFromMap stack t param))"
    by (rule RemoveFromMap_inv(1) [OF st assms(1)])
  show "map_inv (fst (RemoveFromMap stack t param))"
    by (rule RemoveFromMap_inv(3) [OF st assms(1) assms(2)])
next
  show "map_shape (ClearMap t)" by (rule ClearMap_shape [OF assms(1)])
  show "map_inv (ClearMap t)" by (rule ClearMap_inv)
next
  fix step NumFromId c c'
  assume a: "LoadFromFlash step NumFromId c = (1, c') \<and>
        map_inv (map_of_words (take MAP_WORDS (flash (nv c)))) \<and>
        map_inv (map_of_words (take MAP_WORDS (drop MAP_WORDS (flash (nv c)))))"
  then have l: "LoadFromFlash step NumFromId c = (1, c')" by simp
  from a LoadFromFlash_success [OF l] show "map_inv (canSendMap c')"
    by (simp add: ReplaceParamUidByEnum_def replace_msgs_inv)
  from a LoadFromFlash_success [OF l] show "map_inv (canRecvMap c')"
    by (simp add: ReplaceParamUidByEnum_def replace_msgs_inv)
qed

text \<open>
  The stored tables satisfy the invariant when \<open>Save\<close> wrote them from tables that satisfy
  it: \<open>Save\<close> to an erased block leaves tables in memory that satisfy the invariant, and the
  load at start-up from the block it wrote adopts tables that satisfy it.
\<close>

lemma Save_then_Load_keeps_invariant:
  fixes padS padR :: "nat \<Rightarrow> nat \<Rightarrow> 16 word" and GetAttrib_id :: "int \<Rightarrow> 32 word"
  assumes sh: "map_shape (canSendMap c)" "map_shape (canRecvMap c)"
    and len: "MAP_WORDS + MAP_WORDS < length (flash (nv c))"
    and erased: "\<forall>a\<le>MAP_WORDS + MAP_WORDS. flash (nv c) ! a = 0xFFFFFFFF"
    and inv: "map_inv (canSendMap c)" "map_inv (canRecvMap c)"
    and m: "nv m = nv (Save step GetAttrib_id NumFromId padS padR c)"
  shows "map_inv (canSendMap (Save step GetAttrib_id NumFromId padS padR c))"
    and "map_inv (canRecvMap (Save step GetAttrib_id NumFromId padS padR c))"
    and "fst (Load step NumFromId m) = 1"
    and "map_inv (canSendMap (snd (Load step NumFromId m)))"
    and "map_inv (canRecvMap (snd (Load step NumFromId m)))"
proof -
  define sU where "sU = ReplaceParamEnumByUid GetAttrib_id (canSendMap c)"
  define rU where "rU = ReplaceParamEnumByUid GetAttrib_id (canRecvMap c)"
  define imgS where "imgS = map_words padS 0 sU"
  define imgR where "imgR = map_words padR 0 rU"
  define rest where "rest = drop (MAP_WORDS + MAP_WORDS + 1) (flash (nv c))"
  let ?c' = "Save step GetAttrib_id NumFromId padS padR c"
  let ?m = "m\<lparr>canSendMap := ClearMap (canSendMap m), canRecvMap := ClearMap (canRecvMap m)\<rparr>"
  have shU: "map_shape sU" "map_shape rU"
    unfolding sU_def rU_def ReplaceParamEnumByUid_def
    by (rule replace_msgs_shape [OF sh(1)], rule replace_msgs_shape [OF sh(2)])
  have invU: "map_inv sU" "map_inv rU"
    unfolding sU_def rU_def ReplaceParamEnumByUid_def
    using inv by (simp_all add: replace_msgs_inv)
  have lS: "length imgS = MAP_WORDS" and lR: "length imgR = MAP_WORDS"
    unfolding imgS_def imgR_def
    by (rule map_of_words_map_words(2) [OF shU(1)], rule map_of_words_map_words(2) [OF shU(2)])
  have mS: "map_of_words imgS = sU" and mR: "map_of_words imgR = rU"
    using map_of_words_map_words(1) [OF shU(1), of padS "[]"]
      map_of_words_map_words(1) [OF shU(2), of padR "[]"]
    by (simp_all add: imgS_def imgR_def)
  have c': "canSendMap ?c' = ReplaceParamUidByEnum NumFromId sU"
    "canRecvMap ?c' = ReplaceParamUidByEnum NumFromId rU"
    and fl: "flash (nv ?c') =
      imgS @ imgR @ [foldl step (foldl step 0xFFFFFFFF imgS) imgR] @ rest"
    using Save_result [OF sh len erased, of step GetAttrib_id NumFromId padS padR]
    by (simp_all add: sU_def rU_def imgS_def imgR_def rest_def)
  show "map_inv (canSendMap ?c')" "map_inv (canRecvMap ?c')"
    using invU by (simp_all add: c' ReplaceParamUidByEnum_def replace_msgs_inv)
  have "flash (nv ?m) = imgS @ imgR @ [foldl step (foldl step 0xFFFFFFFF imgS) imgR] @ rest"
    using m fl by simp
  from LoadFromFlash_adopts [OF this lS lR, of NumFromId]
  show "fst (Load step NumFromId m) = 1"
    and "map_inv (canSendMap (snd (Load step NumFromId m)))"
    and "map_inv (canRecvMap (snd (Load step NumFromId m)))"
    using invU by (simp_all add: Load_def mS mR ReplaceParamUidByEnum_def replace_msgs_inv)
qed

text \<open>
  \<open>Add\<close> to a full message, on the memory of the table. With the parameter number 2, the
  further \<open>Add\<close> for \<open>0x123\<close> after ten returns 2: the message slot 1 has the identifier 2,
  which is the parameter number, width and bit offset are in the two low bytes of the gain
  of its first field slot, and the message \<open>0x123\<close> is as it was.
\<close>

lemma Add_layout_full_message:
  "(case Add_layout (map_words (\<lambda>i j. 0) 0 full_message_map) 2 0x123 8 8 0 0 of
      Stored r mem \<Rightarrow>
        r = 2 \<and> map_of_words mem ! 0 = full_message_map ! 0 \<and>
        canId (map_of_words mem ! 1) = 2 \<and>
        items (map_of_words mem ! 1) ! 0 =
          \<lparr>mapParam = 0, offset = 0, gain = 0x0808, offsetBits = 0, numBits = 0\<rparr> \<and>
        drop 2 (map_of_words mem) = drop 2 full_message_map
    | Outside \<Rightarrow> False)"
  by code_simp

text \<open>
  Claim C9: every table operation keeps the invariant of the table. \<open>Add\<close> does not. The
  table reached by ten \<open>Add\<close> calls for the identifier \<open>0x123\<close> satisfies the invariant, and
  a further \<open>Add\<close> for \<open>0x123\<close>, here with the parameter number \<open>0x123\<close>, finds every field
  slot of the message active. In the model of the arrays the scan leaves the field array. On
  the memory of the table the slot that the scan stops at is the head of the next message:
  \<open>Add\<close> writes the parameter number over the identifier of message slot 1 and returns 2, and
  the table it leaves holds the identifier \<open>0x123\<close> in the slots 0 and 1.
\<close>

theorem Add_to_full_message_duplicates_identifier:
  "map_shape full_message_map \<and> map_inv full_message_map \<and>
   Add full_message_map 0x123 0x123 8 8 0 0 = Overrun \<and>
   (case Add_layout (map_words (\<lambda>i j. 0) 0 full_message_map) 0x123 0x123 8 8 0 0 of
      Stored r mem \<Rightarrow>
        r = 2 \<and> map_shape (map_of_words mem) \<and>
        canId (map_of_words mem ! 0) = 0x123 \<and> canId (map_of_words mem ! 1) = 0x123 \<and>
        \<not> map_inv (map_of_words mem)
    | Outside \<Rightarrow> False)"
  by code_simp

section \<open>The replies of ProcessSDO\<close>

lemma words_of_sdo_of_words: "words_of_sdo (sdo_of_words d) = d"
proof -
  have "(word_cat (ucast (drop_bit 24 (fst d)) :: 8 word)
          (word_cat (ucast (drop_bit 8 (fst d)) :: 16 word) (ucast (fst d) :: 8 word) :: 24 word) :: 32 word)
        = fst d"
    by (rule bit_word_eqI) (auto simp: bit_simps)
  then show ?thesis
    by (simp add: words_of_sdo_def sdo_of_words_def)
qed

lemma sdo_of_words_of_sdo: "sdo_of_words (words_of_sdo s) = s"
proof -
  let ?w = "word_cat (subIndex s) (word_cat (index s) (cmd s) :: 24 word) :: 32 word"
  have "(ucast ?w :: 8 word) = cmd s"
    by (rule bit_word_eqI) (auto simp: bit_simps)
  moreover have "(ucast (drop_bit 8 ?w) :: 16 word) = index s"
    by (rule bit_word_eqI) (auto simp: bit_simps)
  moreover have "(ucast (drop_bit 24 ?w) :: 8 word) = subIndex s"
    by (rule bit_word_eqI) (auto simp: bit_simps)
  ultimately show ?thesis
    by (cases s) (simp add: words_of_sdo_def sdo_of_words_def)
qed

lemma SDO_handle_other_index:
  assumes "\<not> param_request P sdo" "\<not> map_request P sdo"
  shows "SDO_handle P to_float sdo st c =
     Some (sdo\<lparr>cmd := SDO_ABORT, sdo_data := SDO_ERR_INVIDX\<rparr>, st, c)"
  using assms by (simp add: SDO_handle_def)

lemma SDO_handle_other_command:
  assumes "(param_request P sdo \<and> cmd sdo \<noteq> SDO_WRITE \<and> cmd sdo \<noteq> SDO_READ) \<or>
           (\<not> param_request P sdo \<and> map_request P sdo \<and> cmd sdo \<noteq> SDO_WRITE)"
  shows "SDO_handle P to_float sdo st c = Some (sdo, st, c)"
  using assms by (auto simp: SDO_handle_def Let_def)

lemma AddSend_node: "AddSend p i ob l g c = Some (res, c') \<Longrightarrow> txq c' = txq c \<and> nodeId c' = nodeId c"
  by (auto simp: AddSend_def split: add_outcome.splits)

lemma AddRecv_node: "AddRecv p i ob l g c = Some (res, c') \<Longrightarrow> txq c' = txq c \<and> nodeId c' = nodeId c"
  by (auto simp: AddRecv_def split: add_outcome.splits)

lemma SDO_handle_node:
  assumes "SDO_handle P to_float sdo st c = Some (reply, st', c')"
  shows "txq c' = txq c \<and> nodeId c' = nodeId c"
  using assms
  by (auto simp: SDO_handle_def Let_def split: if_splits prod.splits option.splits
      dest: AddSend_node AddRecv_node)

text \<open>
  Claim C8, as far as the code has it. Every reply of \<open>ProcessSDO\<close> is handed to \<open>Send\<close> with the
  identifier \<open>0x580\<close> plus the node identifier. A request whose index and sub-index are in
  neither recognised range is answered with the abort command and the invalid-index code,
  whatever its command. A request in a recognised range whose command is not one the range
  handles is answered with the request itself, command and data unchanged, and changes
  nothing else.
\<close>

theorem ProcessSDO_replies:
  "(\<forall>st' c'. ProcessSDO P to_float d st c = Some (st', c') \<longrightarrow>
      nodeId c' = nodeId c \<and>
      (\<exists>reply. txq c' = Send (0x580 + ucast (nodeId c)) (words_of_sdo reply) 8 (txq c)))
   \<and>
   (\<not> param_request P (sdo_of_words d) \<and> \<not> map_request P (sdo_of_words d) \<longrightarrow>
      ProcessSDO P to_float d st c =
        Some (st, c\<lparr>txq := Send (0x580 + ucast (nodeId c))
                (words_of_sdo ((sdo_of_words d)\<lparr>cmd := SDO_ABORT, sdo_data := SDO_ERR_INVIDX\<rparr>))
                8 (txq c)\<rparr>))
   \<and>
   ((param_request P (sdo_of_words d) \<and> cmd (sdo_of_words d) \<noteq> SDO_WRITE \<and>
       cmd (sdo_of_words d) \<noteq> SDO_READ) \<or>
    (\<not> param_request P (sdo_of_words d) \<and> map_request P (sdo_of_words d) \<and>
       cmd (sdo_of_words d) \<noteq> SDO_WRITE) \<longrightarrow>
      ProcessSDO P to_float d st c =
        Some (st, c\<lparr>txq := Send (0x580 + ucast (nodeId c)) d 8 (txq c)\<rparr>))"
proof (intro conjI allI impI)
  fix st' c'
  assume a: "ProcessSDO P to_float d st c = Some (st', c')"
  then obtain reply c0 where h: "SDO_handle P to_float (sdo_of_words d) st c = Some (reply, st', c0)"
    and c': "c' = c0\<lparr>txq := Send (0x580 + ucast (nodeId c0)) (words_of_sdo reply) 8 (txq c0)\<rparr>"
    by (auto simp: ProcessSDO_def split: option.splits)
  from SDO_handle_node [OF h] c' show "nodeId c' = nodeId c"
    by simp
  from SDO_handle_node [OF h] c'
  show "\<exists>reply. txq c' = Send (0x580 + ucast (nodeId c)) (words_of_sdo reply) 8 (txq c)"
    by auto
next
  assume "\<not> param_request P (sdo_of_words d) \<and> \<not> map_request P (sdo_of_words d)"
  then show "ProcessSDO P to_float d st c =
        Some (st, c\<lparr>txq := Send (0x580 + ucast (nodeId c))
                (words_of_sdo ((sdo_of_words d)\<lparr>cmd := SDO_ABORT, sdo_data := SDO_ERR_INVIDX\<rparr>))
                8 (txq c)\<rparr>)"
    by (simp add: ProcessSDO_def SDO_handle_other_index)
next
  assume "(param_request P (sdo_of_words d) \<and> cmd (sdo_of_words d) \<noteq> SDO_WRITE \<and>
       cmd (sdo_of_words d) \<noteq> SDO_READ) \<or>
    (\<not> param_request P (sdo_of_words d) \<and> map_request P (sdo_of_words d) \<and>
       cmd (sdo_of_words d) \<noteq> SDO_WRITE)"
  then show "ProcessSDO P to_float d st c =
        Some (st, c\<lparr>txq := Send (0x580 + ucast (nodeId c)) d 8 (txq c)\<rparr>)"
    by (simp add: ProcessSDO_def SDO_handle_other_command words_of_sdo_of_words)
qed

text \<open>
  A request with index \<open>0x1000\<close>, which is in neither range, is answered on identifier
  \<open>0x581\<close> with the command \<open>0x80\<close> and the code \<open>0x06020000\<close>.
\<close>

theorem ProcessSDO_replies_witness:
  "\<not> param_request plain_store (sdo_of_words (0x00100040, 7)) \<and>
   \<not> map_request plain_store (sdo_of_words (0x00100040, 7)) \<and>
   (case ProcessSDO plain_store (\<lambda>i. 0) (0x00100040, 7) () idle_node of
      None \<Rightarrow> False
    | Some (st', c') \<Rightarrow>
        wire (canDev (txq c')) =
          [\<lparr>frame_id = 0x581, frame_ext = False, frame_rtr = False, frame_len = 8,
            frame_data = (0x00100080, 0x06020000)\<rparr>])"
proof -
  have r: "\<not> param_request plain_store (sdo_of_words (0x00100040, 7)) \<and>
      \<not> map_request plain_store (sdo_of_words (0x00100040, 7))"
    by code_simp
  have w: "wire (canDev (Send (0x580 + ucast (nodeId idle_node))
                (words_of_sdo ((sdo_of_words (0x00100040, 7))\<lparr>cmd := SDO_ABORT, sdo_data := SDO_ERR_INVIDX\<rparr>))
                8 (txq idle_node))) =
          [\<lparr>frame_id = 0x581, frame_ext = False, frame_rtr = False, frame_len = 8,
            frame_data = (0x00100080, 0x06020000)\<rparr>]"
    by code_simp
  from ProcessSDO_replies [of plain_store "\<lambda>i. 0" "(0x00100040, 7)" "()" idle_node] r
  have "ProcessSDO plain_store (\<lambda>i. 0) (0x00100040, 7) () idle_node =
        Some ((), idle_node\<lparr>txq := Send (0x580 + ucast (nodeId idle_node))
                (words_of_sdo ((sdo_of_words (0x00100040, 7))\<lparr>cmd := SDO_ABORT, sdo_data := SDO_ERR_INVIDX\<rparr>))
                8 (txq idle_node)\<rparr>)"
    by blast
  with r w show ?thesis
    by simp
qed

text \<open>
  The claim as it is stated fails for a command that is not recognised inside a recognised
  range. The request with index \<open>0x2000\<close>, sub-index 0 and command 0 is neither a read nor
  a write; the reply on \<open>0x581\<close> carries the request's own command byte 0 and data, not the
  abort command with the invalid-index code.
\<close>

theorem ProcessSDO_unknown_command_echoed:
  "param_request plain_store (sdo_of_words (0x00200000, 7)) \<and>
   cmd (sdo_of_words (0x00200000, 7)) \<noteq> SDO_WRITE \<and>
   cmd (sdo_of_words (0x00200000, 7)) \<noteq> SDO_READ \<and>
   (case ProcessSDO plain_store (\<lambda>i. 0) (0x00200000, 7) () idle_node of
      None \<Rightarrow> False
    | Some (st', c') \<Rightarrow>
        wire (canDev (txq c')) =
          [\<lparr>frame_id = 0x581, frame_ext = False, frame_rtr = False, frame_len = 8,
            frame_data = (0x00200000, 7)\<rparr>] \<and>
        cmd (sdo_of_words (0x00200000, 7)) \<noteq> SDO_ABORT)"
  by code_simp

section \<open>The mask and the shifts of a field\<close>

lemma sint_word_of_int_32:
  "- (2 ^ 31) \<le> m \<Longrightarrow> m < 2 ^ 31 \<Longrightarrow> sint (word_of_int m :: 32 word) = m"
  by (simp add: sint_sbintrunc' signed_take_bit_int_eq_self)

lemma uint_word_of_int_32:
  "0 \<le> m \<Longrightarrow> m < 2 ^ 32 \<Longrightarrow> uint (word_of_int m :: 32 word) = m"
  by (simp add: uint_word_of_int_eq take_bit_int_eq_self)

lemma pow2_less: "n < m \<Longrightarrow> (2::int) ^ n < 2 ^ m"
  by (rule power_strict_increasing) simp_all

lemma pow2_le: "n \<le> m \<Longrightarrow> (2::int) ^ n \<le> 2 ^ m"
  by (rule power_increasing) simp_all

lemma sint_push_bit_one:
  assumes "n < 31"
  shows "sint (push_bit n (1 :: 32 word)) = 2 ^ n"
proof -
  have "push_bit n (1 :: 32 word) = word_of_int (2 ^ n)"
    by (simp add: push_bit_eq_mult)
  moreover have "(2::int) ^ n < 2 ^ 31"
    using assms by (rule pow2_less)
  moreover have "- (2 ^ 31) \<le> (2::int) ^ n"
    by (rule order_trans [of _ 0]) simp_all
  ultimately show ?thesis
    by (simp only: sint_word_of_int_32)
qed

lemma field_mask_defined:
  assumes "0 \<le> n" "n \<le> 30"
  shows "field_mask n = Some (mask (nat n))"
proof -
  from assms have n: "nat n < 31" by simp
  have p: "(0::int) < 2 ^ nat n" by simp
  have q: "- (2 ^ 31) \<le> (- 1 :: int)" by simp
  have ge: "- (2 ^ 31) \<le> (2::int) ^ nat n - 1"
    using p q by linarith
  have "one_shl n = Some (2 ^ nat n)"
    using assms sint_push_bit_one [OF n] by (simp add: one_shl_def)
  moreover have "int_minus_one (2 ^ nat n) = Some (2 ^ nat n - 1)"
    using ge by (simp only: int_minus_one_def if_True)
  moreover have "(word_of_int (2 ^ nat n - 1) :: 32 word) = mask (nat n)"
    by (simp add: mask_eq_decr_exp)
  ultimately show ?thesis
    by (simp add: field_mask_def)
qed

lemma field_mask_undefined: "field_mask 31 = None" "32 \<le> n \<Longrightarrow> field_mask n = None"
  "n < 0 \<Longrightarrow> field_mask n = None"
  by (simp_all add: field_mask_def one_shl_def int_minus_one_def)

lemma drop_push_masked:
  assumes "(w :: 32 word) AND mask W = w" "s + W \<le> 32"
  shows "drop_bit s (push_bit s w) AND mask W = w"
proof -
  have "drop_bit s (push_bit s (w AND mask W)) AND mask W = w AND mask W"
    using assms(2) by (intro bit_word_eqI) (auto simp: bit_simps)
  with assms(1) show ?thesis by simp
qed

lemma float_trunc_of_int: "float_trunc (of_int n) = n"
  by (simp add: float_trunc_def)

lemma float_trunc_fixed:
  assumes "0 \<le> V"
  shows "float_trunc (fixed_to_float fd V) = V div 2 ^ fd"
proof -
  have "fixed_to_float fd V = of_int V / of_int (2 ^ fd)"
    by (simp add: fixed_to_float_def)
  moreover have "(0::rat) \<le> of_int V / of_int (2 ^ fd)"
    using assms by simp
  ultimately show ?thesis
    by (simp only: float_trunc_def if_True floor_divide_of_int_eq)
qed

lemma FP_FROMINT_exact:
  assumes "0 \<le> k" "k * 2 ^ fd < 2 ^ 31"
  shows "FP_FROMINT fd (word_of_int k) = k * 2 ^ fd"
proof -
  have "push_bit fd (word_of_int k :: 32 word) = word_of_int (k * 2 ^ fd)"
    by (simp add: push_bit_eq_mult)
  moreover have "- (2 ^ 31) \<le> k * 2 ^ fd"
  proof -
    have "(0::int) \<le> k * 2 ^ fd"
      using assms(1) by simp
    moreover have "- (2 ^ 31) \<le> (0::int)"
      by simp
    ultimately show ?thesis
      by (rule order_trans [rotated])
  qed
  ultimately show ?thesis
    using assms(2) by (simp only: FP_FROMINT_def sint_word_of_int_32)
qed

section \<open>Claim C3: round trip of the field codec\<close>

text \<open>
  Claim C3, amended: for a field with gain 1 and translation 0, of a width from 1 to 30 bits
  that lies inside one of the two payload words, and a parameter whose fixed-point value \<open>V\<close>
  is not negative, is below \<open>2 ^ 24\<close> and has an integer part that fits the width, the field
  loop of \<open>SendAll\<close> on an empty payload followed by the field loop of \<open>HandleRx\<close> on that
  payload hands the parameter store \<open>V\<close> without its fractional part: the fixed-point value
  \<open>V - V mod 2 ^ fd\<close>, which differs from \<open>V\<close> by less than one whole unit.
\<close>

theorem field_codec_roundtrip:
  fixes p :: "rat CANPOS" and V :: int
  assumes "gain p = 1" "offset p = 0"
    and "1 \<le> sint (numBits p)" "sint (numBits p) \<le> 30"
    and "uint (offsetBits p) + sint (numBits p) \<le> 32 \<or>
         (32 \<le> uint (offsetBits p) \<and> uint (offsetBits p) + sint (numBits p) \<le> 64)"
    and "0 \<le> V" "V < 2 ^ 24" "V div 2 ^ fd < 2 ^ nat (sint (numBits p))"
  shows "\<exists>d. SendAll_field (fixed_to_float fd V) p (0, 0) = Some d \<and>
             HandleRx_field fd p d = Some (V - V mod 2 ^ fd)"
proof -
  define W where "W = nat (sint (numBits p))"
  define k where "k = V div 2 ^ fd"
  define w :: "32 word" where "w = word_of_int k"
  define s where "s = (if 31 < uint (offsetBits p) then nat (uint (offsetBits p) - 32)
                       else nat (uint (offsetBits p)))"
  have W: "1 \<le> W" "W \<le> 30" "sint (numBits p) = int W"
    using assms(3,4) by (simp_all add: W_def)
  have k0: "0 \<le> k"
    using assms(6) by (simp add: k_def pos_imp_zdiv_nonneg_iff)
  have kW: "k < 2 ^ W"
    using assms(8) by (simp add: k_def W_def)
  have "(2::int) ^ W \<le> 2 ^ 30"
    using W(2) by (rule pow2_le)
  with kW have k32: "k < 2 ^ 32" "k < 2 ^ 31"
    by simp_all
  have res: "k * 2 ^ fd = V - V mod 2 ^ fd"
    by (simp add: k_def minus_mod_eq_div_mult)
  have "0 \<le> V mod 2 ^ fd"
    by simp
  with res have kV: "k * 2 ^ fd \<le> V"
    by linarith
  have si: "int s = (if 31 < uint (offsetBits p) then uint (offsetBits p) - 32
                     else uint (offsetBits p))"
    by (simp add: s_def)
  have "int s + int W \<le> 32"
    using assms(5) W(3) si by (auto split: if_splits)
  then have sW: "s + W \<le> 32"
    by linarith
  then have s32: "s < 32" using W(1) by simp
  have sh: "(if 31 < uint (offsetBits p) then uint (offsetBits p) - 32 else uint (offsetBits p)) = int s"
    by (simp only: si)
  have fm: "field_mask (sint (numBits p)) = Some (mask W)"
    using field_mask_defined [of "sint (numBits p)"] assms(3,4) by (simp add: W_def)
  have uw: "uint w = k"
    unfolding w_def using k0 k32(1) by (rule uint_word_of_int_32)
  have wm: "w AND mask W = w"
    using kW by (simp add: mask_eq_iff uw)
  have ft: "float_to_u32 (fixed_to_float fd V) = Some w"
    using k0 k32(1) by (simp add: float_to_u32_def float_trunc_fixed [OF assms(6)] k_def [symmetric] w_def)
  have "(2::int) ^ 24 < 2 ^ 31"
    by simp
  with kV assms(7) have kfd: "k * 2 ^ fd < 2 ^ 31"
    by linarith
  have fp: "FP_FROMINT fd w = k * 2 ^ fd"
    unfolding w_def by (rule FP_FROMINT_exact [OF k0 kfd])
  have lo: "- (2 ^ 31) \<le> k * 2 ^ fd"
  proof -
    have "(0::int) \<le> k * 2 ^ fd"
      using k0 by simp
    moreover have "- (2 ^ 31) \<le> (0::int)"
      by simp
    ultimately show ?thesis
      by (rule order_trans [rotated])
  qed
  have rt: "float_to_s32 (of_int (k * 2 ^ fd)) = Some (k * 2 ^ fd)"
    using lo kfd by (simp only: float_to_s32_def float_trunc_of_int) simp
  have shl: "u32_shl w (int s) = Some (push_bit s w)"
    using s32 by (simp add: u32_shl_def)
  have shr: "u32_shr (push_bit s w) (int s) = Some (drop_bit s (push_bit s w))"
    using s32 by (simp add: u32_shr_def)
  have fin: "(let val0 = FP_FROMINT fd w; val1 = val0 + sint (offset p)
              in if - (2 ^ 31) \<le> val1 \<and> val1 < 2 ^ 31
                 then float_to_s32 (of_int val1 * gain p) else None) = Some (k * 2 ^ fd)"
    using lo kfd by (simp only: Let_def fp assms(1,2) sint_0 add_0_right mult_1_right rt) simp
  show ?thesis
  proof (cases "31 < uint (offsetBits p)")
    case True
    then have so: "uint (offsetBits p) - 32 = int s"
      using sh by simp
    have "SendAll_field (fixed_to_float fd V) p (0, 0) = Some (0, push_bit s w)"
      using True by (simp add: SendAll_field_def assms(1,2) ft fm wm so shl)
    moreover have "HandleRx_field fd p (0, push_bit s w) = Some (k * 2 ^ fd)"
      using True fin
      by (simp only: HandleRx_field_def fm so shr drop_push_masked [OF wm sW]
          option.case if_True snd_conv)
    ultimately show ?thesis
      using res by simp
  next
    case False
    then have so: "uint (offsetBits p) = int s"
      using sh by simp
    have "SendAll_field (fixed_to_float fd V) p (0, 0) = Some (push_bit s w, 0)"
      using False by (simp add: SendAll_field_def assms(1,2) ft fm wm so shl)
    moreover have "HandleRx_field fd p (push_bit s w, 0) = Some (k * 2 ^ fd)"
      using False fin
      by (simp only: HandleRx_field_def fm so shr drop_push_masked [OF wm sW]
          option.case if_False fst_conv)
    ultimately show ?thesis
      using res by simp
  qed
qed

text \<open>
  The theorem at the 8-bit field at bit 40 with gain 1, five fractional bits and the
  fixed-point value 330 (10.3125): the payload carries 10 in the second word and the decoder
  returns 320 (10.0).
\<close>

theorem field_codec_roundtrip_witness:
  "gain unit_gain_pos = 1 \<and> offset unit_gain_pos = 0 \<and> sint (numBits unit_gain_pos) = 8 \<and>
   uint (offsetBits unit_gain_pos) = 40 \<and>
   (\<exists>d. SendAll_field (fixed_to_float 5 330) unit_gain_pos (0, 0) = Some d \<and>
        HandleRx_field 5 unit_gain_pos d = Some 320)"
  using field_codec_roundtrip [of unit_gain_pos 330 5] by (simp add: unit_gain_pos_def)

text \<open>
  Claim C3 as stated fails when the gain is not 1: the decoder multiplies by the gain where
  the inverse of the encoder divides by it. With gain 2, translation 0, an 8-bit field at
  bit 0 and five fractional bits, the fixed-point value 320 (10.0) is sent as 20, and the
  decoder returns the fixed-point value 1280 (40.0).
\<close>

theorem codec_applies_gain_twice:
  "SendAll_field (fixed_to_float 5 320) gain2_pos (0, 0) = Some (20, 0) \<and>
   HandleRx_field 5 gain2_pos (20, 0) = Some 1280 \<and>
   \<not> \<bar>1280 - 320\<bar> \<le> (2 ^ 5 :: int)"
  by code_simp

section \<open>Claim C10: the mask of a field of 32 bits\<close>

text \<open>
  Claim C10: for every width from 1 to 32 that \<open>Add\<close> accepts, the mask
  \<^verbatim>\<open>(1 << numBits) - 1\<close> of \<open>SendAll\<close> and \<open>HandleRx\<close> is defined and equals \<open>2 ^ numBits - 1\<close>.
  The code does not ensure it: on a cleared table, \<open>Add\<close> with identifier \<open>0x123\<close>, bit offset
  0 and width 32 succeeds and stores the width 32, and for this field the shift
  \<^verbatim>\<open>1 << 32\<close> of a 32-bit \<^verbatim>\<open>int\<close> has no defined value, so that neither the mask nor the result
  of the field loops of \<open>SendAll\<close> and \<open>HandleRx\<close> is defined.
\<close>

theorem Add_accepts_width_32_mask_undefined:
  "(case Add (ClearMap zero_rat_map) 1 0x123 0 32 1 0 of
      Returned r t \<Rightarrow>
        r = 1 \<and> sint (numBits (items (t ! 0) ! 0)) = 32 \<and>
        one_shl (sint (numBits (items (t ! 0) ! 0))) = None \<and>
        field_mask (sint (numBits (items (t ! 0) ! 0))) = None \<and>
        SendAll_field 1 (items (t ! 0) ! 0) (0, 0) = None \<and>
        HandleRx_field 5 (items (t ! 0) ! 0) (1, 0) = None
    | Overrun \<Rightarrow> False)"
  by code_simp

end
